theory Spec2Isabelle
  imports Main "HOL-Library.Word" "HOL-Library.Monad_Syntax"
begin

section \<open>Intrusive reference counting: the data model\<close>

text \<open>
  The development embeds \<^verbatim>\<open>solution.h\<close>: the handle \<^verbatim>\<open>intrusive_ptr<T>\<close>, the
  counter base \<^verbatim>\<open>intrusive_ref_counter<T>\<close> and the two hooks
  \<^verbatim>\<open>intrusive_ptr_add_ref\<close> and \<^verbatim>\<open>intrusive_ptr_release\<close>.

  A raw pointer \<^verbatim>\<open>T*\<close> is an address; \<^verbatim>\<open>nullptr\<close> is the address 0 and the order of
  \<^verbatim>\<open>std::less<T*>\<close> is the order of addresses. Pointer conversions between related
  pointee types (\<^verbatim>\<open>Y*\<close> to \<^verbatim>\<open>T*\<close>) keep the address.
\<close>

type_synonym ptr = nat

abbreviation nullptr :: ptr where
  "nullptr \<equiv> 0"

text \<open>
  \<^verbatim>\<open>mutable std::atomic<unsigned int> counter = 0;\<close> The counter is an unsigned 32-bit
  integer: increment and decrement wrap around. The operations are modelled
  sequentially, one indivisible step each.
\<close>

record intrusive_ref_counter =
  counter :: "32 word"

text \<open>\<^verbatim>\<open>intrusive_ref_counter() noexcept = default;\<close> with the member initialiser \<^verbatim>\<open>= 0\<close>.\<close>

definition ref_counter_default :: intrusive_ref_counter where
  "ref_counter_default = \<lparr>counter = 0\<rparr>"

text \<open>
  \<^verbatim>\<open>intrusive_ref_counter(const intrusive_ref_counter&) noexcept {}\<close>: the body is empty
  and no member is initialised from the argument, so the member initialiser applies.
\<close>

definition ref_counter_copy :: "intrusive_ref_counter \<Rightarrow> intrusive_ref_counter" where
  "ref_counter_copy other = \<lparr>counter = 0\<rparr>"

text \<open>\<^verbatim>\<open>operator=(const intrusive_ref_counter&) noexcept { return *this; }\<close>\<close>

definition ref_counter_assign ::
  "intrusive_ref_counter \<Rightarrow> intrusive_ref_counter \<Rightarrow> intrusive_ref_counter" where
  "ref_counter_assign this other = this"

text \<open>\<^verbatim>\<open>unsigned int use_count() const noexcept { return counter; }\<close>\<close>

definition use_count :: "intrusive_ref_counter \<Rightarrow> 32 word" where
  "use_count this = counter this"

text \<open>
  The heap maps the address of every live pointee to its counter base. A pointee that
  was deleted is no longer in the map. The trace records, in order, every call of a
  hook together with the value the counter has after the call, and every deletion.
  The destructor of the pointee type is code of the client: the model removes the
  pointee and runs nothing else.
\<close>

datatype event =
    AddRef ptr "32 word"
  | Release ptr "32 word"
  | Delete ptr

record heap =
  objs :: "ptr \<rightharpoonup> intrusive_ref_counter"
  trace :: "event list"

text \<open>
  \<^verbatim>\<open>++p->counter;\<close> Calling a hook on a pointer that does not point to a live pointee
  (a null or dangling pointer) is undefined behaviour: the model returns \<open>None\<close>.
\<close>

definition intrusive_ptr_add_ref :: "ptr \<Rightarrow> heap \<Rightarrow> heap option" where
  "intrusive_ptr_add_ref p s =
     (case objs s p of
        None \<Rightarrow> None
      | Some c \<Rightarrow>
          let v = counter c + 1
          in Some (s\<lparr>objs := (objs s)(p \<mapsto> c\<lparr>counter := v\<rparr>),
                     trace := trace s @ [AddRef p v]\<rparr>))"

text \<open>\<^verbatim>\<open>if (--p->counter == 0) { delete static_cast<const Derived*>(p); }\<close>\<close>

definition intrusive_ptr_release :: "ptr \<Rightarrow> heap \<Rightarrow> heap option" where
  "intrusive_ptr_release p s =
     (case objs s p of
        None \<Rightarrow> None
      | Some c \<Rightarrow>
          let v = counter c - 1
          in if v = 0
             then Some (s\<lparr>objs := (objs s)(p := None),
                          trace := trace s @ [Release p v, Delete p]\<rparr>)
             else Some (s\<lparr>objs := (objs s)(p \<mapsto> c\<lparr>counter := v\<rparr>),
                          trace := trace s @ [Release p v]\<rparr>))"

section \<open>The handle\<close>

text \<open>\<^verbatim>\<open>T* m_pointer = nullptr;\<close> is the only member of a handle.\<close>

record intrusive_ptr =
  m_pointer :: ptr

text \<open>\<^verbatim>\<open>T* get() const noexcept { return m_pointer; }\<close>\<close>

definition get :: "intrusive_ptr \<Rightarrow> ptr" where
  "get this = m_pointer this"

text \<open>
  \<^verbatim>\<open>T* detach() noexcept\<close> returns the stored pointer and the handle as it is left
  behind. It does not receive the heap: it cannot call a hook.
\<close>

definition detach :: "intrusive_ptr \<Rightarrow> ptr \<times> intrusive_ptr" where
  "detach this = (let result = m_pointer this in (result, this\<lparr>m_pointer := nullptr\<rparr>))"

text \<open>\<^verbatim>\<open>explicit operator bool() const noexcept { return m_pointer != nullptr; }\<close>\<close>

definition operator_bool :: "intrusive_ptr \<Rightarrow> bool" where
  "operator_bool this = (m_pointer this \<noteq> nullptr)"

text \<open>
  \<^verbatim>\<open>void swap(intrusive_ptr& b) noexcept { std::swap(m_pointer, b.m_pointer); }\<close>
  The result is the pair of the two handles after the exchange, (\<^verbatim>\<open>*this\<close>, \<^verbatim>\<open>b\<close>).
\<close>

definition swap :: "intrusive_ptr \<Rightarrow> intrusive_ptr \<Rightarrow> intrusive_ptr \<times> intrusive_ptr" where
  "swap this b = (this\<lparr>m_pointer := m_pointer b\<rparr>, b\<lparr>m_pointer := m_pointer this\<rparr>)"

subsection \<open>Constructors and the destructor\<close>

text \<open>\<^verbatim>\<open>intrusive_ptr() noexcept = default;\<close>\<close>

definition ctor_default :: intrusive_ptr where
  "ctor_default = \<lparr>m_pointer = nullptr\<rparr>"

text \<open>\<^verbatim>\<open>intrusive_ptr(T* p, bool add_ref = true)\<close>\<close>

definition ctor_raw :: "ptr \<Rightarrow> bool \<Rightarrow> heap \<Rightarrow> (intrusive_ptr \<times> heap) option" where
  "ctor_raw p add_ref s =
     (let this = \<lparr>m_pointer = p\<rparr>
      in if m_pointer this \<noteq> nullptr \<and> add_ref
         then do { s' \<leftarrow> intrusive_ptr_add_ref (m_pointer this) s; Some (this, s') }
         else Some (this, s))"

text \<open>\<^verbatim>\<open>intrusive_ptr(intrusive_ptr const& r)\<close>\<close>

definition ctor_copy :: "intrusive_ptr \<Rightarrow> heap \<Rightarrow> (intrusive_ptr \<times> heap) option" where
  "ctor_copy r s =
     (let this = \<lparr>m_pointer = m_pointer r\<rparr>
      in if m_pointer this \<noteq> nullptr
         then do { s' \<leftarrow> intrusive_ptr_add_ref (m_pointer this) s; Some (this, s') }
         else Some (this, s))"

text \<open>\<^verbatim>\<open>template <class Y> intrusive_ptr(intrusive_ptr<Y> const& r)\<close>\<close>

definition ctor_copy_conv :: "intrusive_ptr \<Rightarrow> heap \<Rightarrow> (intrusive_ptr \<times> heap) option" where
  "ctor_copy_conv r s =
     (let this = \<lparr>m_pointer = get r\<rparr>
      in if m_pointer this \<noteq> nullptr
         then do { s' \<leftarrow> intrusive_ptr_add_ref (m_pointer this) s; Some (this, s') }
         else Some (this, s))"

text \<open>
  \<^verbatim>\<open>intrusive_ptr(intrusive_ptr&& r)\<close>: the result is the new handle and the source as it
  is left behind. The heap is not an argument.
\<close>

definition ctor_move :: "intrusive_ptr \<Rightarrow> intrusive_ptr \<times> intrusive_ptr" where
  "ctor_move r = (\<lparr>m_pointer = m_pointer r\<rparr>, r\<lparr>m_pointer := nullptr\<rparr>)"

text \<open>\<^verbatim>\<open>template <class Y> intrusive_ptr(intrusive_ptr<Y>&& r)\<close>, whose body is \<^verbatim>\<open>r.detach();\<close>\<close>

definition ctor_move_conv :: "intrusive_ptr \<Rightarrow> intrusive_ptr \<times> intrusive_ptr" where
  "ctor_move_conv r = (let this = \<lparr>m_pointer = get r\<rparr> in (this, snd (detach r)))"

text \<open>\<^verbatim>\<open>~intrusive_ptr()\<close>\<close>

definition dtor :: "intrusive_ptr \<Rightarrow> heap \<Rightarrow> heap option" where
  "dtor this s =
     (if m_pointer this \<noteq> nullptr then intrusive_ptr_release (m_pointer this) s else Some s)"

subsection \<open>Assignment\<close>

text \<open>
  Every assignment builds a temporary, swaps it with \<^verbatim>\<open>*this\<close> and destroys the
  temporary at the end of the full expression. An assignment returns the target after
  the call (and, for a move, the source after the call) with the heap.

  \<^verbatim>\<open>intrusive_ptr& operator=(intrusive_ptr const& r)\<close>
\<close>

definition assign_copy ::
  "intrusive_ptr \<Rightarrow> intrusive_ptr \<Rightarrow> heap \<Rightarrow> (intrusive_ptr \<times> heap) option" where
  "assign_copy this r s =
     (if m_pointer r \<noteq> m_pointer this
      then do {
        (tmp, s1) \<leftarrow> ctor_copy r s;
        let (tmp', this') = swap tmp this;
        s2 \<leftarrow> dtor tmp' s1;
        Some (this', s2) }
      else Some (this, s))"

text \<open>\<^verbatim>\<open>template <class Y> intrusive_ptr& operator=(intrusive_ptr<Y> const& r)\<close>\<close>

definition assign_copy_conv ::
  "intrusive_ptr \<Rightarrow> intrusive_ptr \<Rightarrow> heap \<Rightarrow> (intrusive_ptr \<times> heap) option" where
  "assign_copy_conv this r s =
     do {
       (tmp, s1) \<leftarrow> ctor_copy_conv r s;
       let (tmp', this') = swap tmp this;
       s2 \<leftarrow> dtor tmp' s1;
       Some (this', s2) }"

text \<open>\<^verbatim>\<open>intrusive_ptr& operator=(T* r)\<close>, with the default \<^verbatim>\<open>add_ref = true\<close>.\<close>

definition assign_raw ::
  "intrusive_ptr \<Rightarrow> ptr \<Rightarrow> heap \<Rightarrow> (intrusive_ptr \<times> heap) option" where
  "assign_raw this r s =
     do {
       (tmp, s1) \<leftarrow> ctor_raw r True s;
       let (tmp', this') = swap tmp this;
       s2 \<leftarrow> dtor tmp' s1;
       Some (this', s2) }"

text \<open>
  \<^verbatim>\<open>intrusive_ptr& operator=(intrusive_ptr&& r)\<close>. The result is
  ((\<^verbatim>\<open>*this\<close>, \<^verbatim>\<open>r\<close>), heap) after the call. When \<^verbatim>\<open>r\<close> is \<^verbatim>\<open>*this\<close> itself the pointers are
  equal and neither is changed.
\<close>

definition assign_move ::
  "intrusive_ptr \<Rightarrow> intrusive_ptr \<Rightarrow> heap \<Rightarrow> ((intrusive_ptr \<times> intrusive_ptr) \<times> heap) option" where
  "assign_move this r s =
     (if m_pointer r \<noteq> m_pointer this
      then do {
        let (tmp, r') = ctor_move r;
        let (tmp', this') = swap tmp this;
        s1 \<leftarrow> dtor tmp' s;
        Some ((this', r'), s1) }
      else Some ((this, r), s))"

text \<open>
  \<^verbatim>\<open>template <class Y> intrusive_ptr& operator=(intrusive_ptr<Y>&& r)\<close>. The source is a
  handle of another type, hence another object than \<^verbatim>\<open>*this\<close>.
\<close>

definition assign_move_conv ::
  "intrusive_ptr \<Rightarrow> intrusive_ptr \<Rightarrow> heap \<Rightarrow> ((intrusive_ptr \<times> intrusive_ptr) \<times> heap) option" where
  "assign_move_conv this r s =
     do {
       let (tmp, r') = ctor_move_conv r;
       let (tmp', this') = swap tmp this;
       s1 \<leftarrow> dtor tmp' s;
       Some ((this', r'), s1) }"

subsection \<open>reset\<close>

text \<open>\<^verbatim>\<open>void reset()\<close>\<close>

definition reset :: "intrusive_ptr \<Rightarrow> heap \<Rightarrow> (intrusive_ptr \<times> heap) option" where
  "reset this s =
     (if m_pointer this \<noteq> nullptr
      then do {
        s1 \<leftarrow> intrusive_ptr_release (m_pointer this) s;
        Some (this\<lparr>m_pointer := nullptr\<rparr>, s1) }
      else Some (this, s))"

text \<open>\<^verbatim>\<open>void reset(T* r) { intrusive_ptr(r).swap(*this); }\<close>\<close>

definition reset_ptr ::
  "intrusive_ptr \<Rightarrow> ptr \<Rightarrow> heap \<Rightarrow> (intrusive_ptr \<times> heap) option" where
  "reset_ptr this r s =
     do {
       (tmp, s1) \<leftarrow> ctor_raw r True s;
       let (tmp', this') = swap tmp this;
       s2 \<leftarrow> dtor tmp' s1;
       Some (this', s2) }"

text \<open>\<^verbatim>\<open>void reset(T* r, bool add_ref) { intrusive_ptr(r, add_ref).swap(*this); }\<close>\<close>

definition reset_ptr_flag ::
  "intrusive_ptr \<Rightarrow> ptr \<Rightarrow> bool \<Rightarrow> heap \<Rightarrow> (intrusive_ptr \<times> heap) option" where
  "reset_ptr_flag this r add_ref s =
     do {
       (tmp, s1) \<leftarrow> ctor_raw r add_ref s;
       let (tmp', this') = swap tmp this;
       s2 \<leftarrow> dtor tmp' s1;
       Some (this', s2) }"

subsection \<open>Comparisons\<close>

text \<open>
  The six equality operators and \<^verbatim>\<open>operator<\<close>. None receives the heap, and the
  handles are \<^verbatim>\<open>const&\<close>: a comparison returns a truth value and nothing else.
\<close>

definition eq_handles :: "intrusive_ptr \<Rightarrow> intrusive_ptr \<Rightarrow> bool" where
  "eq_handles a b = (get a = get b)"

definition ne_handles :: "intrusive_ptr \<Rightarrow> intrusive_ptr \<Rightarrow> bool" where
  "ne_handles a b = (get a \<noteq> get b)"

definition eq_handle_raw :: "intrusive_ptr \<Rightarrow> ptr \<Rightarrow> bool" where
  "eq_handle_raw a b = (get a = b)"

definition ne_handle_raw :: "intrusive_ptr \<Rightarrow> ptr \<Rightarrow> bool" where
  "ne_handle_raw a b = (get a \<noteq> b)"

definition eq_raw_handle :: "ptr \<Rightarrow> intrusive_ptr \<Rightarrow> bool" where
  "eq_raw_handle a b = (a = get b)"

definition ne_raw_handle :: "ptr \<Rightarrow> intrusive_ptr \<Rightarrow> bool" where
  "ne_raw_handle a b = (a \<noteq> get b)"

text \<open>\<^verbatim>\<open>return std::less<T*>()(a.get(), b.get());\<close>\<close>

definition less_handles :: "intrusive_ptr \<Rightarrow> intrusive_ptr \<Rightarrow> bool" where
  "less_handles a b = (get a < get b)"

section \<open>Assignment of a fresh handle, as the specification words it\<close>

text \<open>
  The specification describes \<^verbatim>\<open>reset(pointer, addRefFlag)\<close> as "assigning a freshly
  constructed handle from the raw pointer". This definition follows those words, for
  comparison with \<open>reset_ptr_flag\<close>: the statement \<^verbatim>\<open>h = intrusive_ptr(r, add_ref);\<close>
  constructs a temporary, move-assigns it to the handle (the temporary is an rvalue of
  the same type) and destroys the temporary at the end of the statement.
\<close>

definition assign_fresh ::
  "intrusive_ptr \<Rightarrow> ptr \<Rightarrow> bool \<Rightarrow> heap \<Rightarrow> (intrusive_ptr \<times> heap) option" where
  "assign_fresh this r add_ref s =
     do {
       (fresh, s1) \<leftarrow> ctor_raw r add_ref s;
       ((this', fresh'), s2) \<leftarrow> assign_move this fresh s1;
       s3 \<leftarrow> dtor fresh' s2;
       Some (this', s3) }"

section \<open>Programs over a store of handles\<close>

text \<open>
  A client program is a sequence of operations on named handle objects. The world of
  such a program is the heap, the store of the handle objects that are alive, and, for
  every pointee, the number of references the client itself holds through raw
  pointers: a reference it took by calling the increment hook or received from
  \<^verbatim>\<open>detach()\<close>, and has neither released nor handed to a handle constructed with
  \<^verbatim>\<open>add_ref = false\<close>. That number is bookkeeping of the client's obligations; no
  operation of the handle reads it.
\<close>

type_synonym hid = nat

record world =
  heap_of :: heap
  handles :: "hid \<rightharpoonup> intrusive_ptr"
  owed :: "ptr \<Rightarrow> nat"

datatype action =
    Construct hid ptr bool
  | DefaultConstruct hid
  | CopyConstruct hid hid
  | CopyConstructConv hid hid
  | MoveConstruct hid hid
  | MoveConstructConv hid hid
  | Destroy hid
  | AssignCopy hid hid
  | AssignCopyConv hid hid
  | AssignRaw hid ptr
  | AssignMove hid hid
  | AssignMoveConv hid hid
  | Reset hid
  | ResetPtr hid ptr
  | ResetPtrFlag hid ptr bool
  | Detach hid
  | Swap hid hid
  | HookAddRef ptr
  | HookRelease ptr

text \<open>The client hands one of its own references to a handle, or receives one.\<close>

definition hand_over :: "ptr \<Rightarrow> bool \<Rightarrow> (ptr \<Rightarrow> nat) \<Rightarrow> (ptr \<Rightarrow> nat)" where
  "hand_over p add_ref f = (if add_ref \<or> p = nullptr then f else f(p := f p - 1))"

definition receive :: "ptr \<Rightarrow> (ptr \<Rightarrow> nat) \<Rightarrow> (ptr \<Rightarrow> nat)" where
  "receive p f = (if p = nullptr then f else f(p := f p + 1))"

text \<open>
  One operation. A constructor creates a handle object under a name that is not in
  use; every other operation works on handle objects that exist. The two operands of
  a converting assignment are handles of different types, hence different objects.
  An operation that is not well-formed in this sense, or that runs into undefined
  behaviour, yields \<open>None\<close>.
\<close>

fun step :: "action \<Rightarrow> world \<Rightarrow> world option" where
  "step (Construct h p add_ref) w =
     (case handles w h of
        Some _ \<Rightarrow> None
      | None \<Rightarrow> do {
          (x, s) \<leftarrow> ctor_raw p add_ref (heap_of w);
          Some (w\<lparr>heap_of := s, handles := (handles w)(h \<mapsto> x),
                   owed := hand_over p add_ref (owed w)\<rparr>) })"
| "step (DefaultConstruct h) w =
     (case handles w h of
        Some _ \<Rightarrow> None
      | None \<Rightarrow> Some (w\<lparr>handles := (handles w)(h \<mapsto> ctor_default)\<rparr>))"
| "step (CopyConstruct h r) w =
     (case (handles w h, handles w r) of
        (None, Some y) \<Rightarrow> do {
          (x, s) \<leftarrow> ctor_copy y (heap_of w);
          Some (w\<lparr>heap_of := s, handles := (handles w)(h \<mapsto> x)\<rparr>) }
      | _ \<Rightarrow> None)"
| "step (CopyConstructConv h r) w =
     (case (handles w h, handles w r) of
        (None, Some y) \<Rightarrow> do {
          (x, s) \<leftarrow> ctor_copy_conv y (heap_of w);
          Some (w\<lparr>heap_of := s, handles := (handles w)(h \<mapsto> x)\<rparr>) }
      | _ \<Rightarrow> None)"
| "step (MoveConstruct h r) w =
     (case (handles w h, handles w r) of
        (None, Some y) \<Rightarrow>
          (let (x, y') = ctor_move y
           in Some (w\<lparr>handles := (handles w)(r \<mapsto> y', h \<mapsto> x)\<rparr>))
      | _ \<Rightarrow> None)"
| "step (MoveConstructConv h r) w =
     (case (handles w h, handles w r) of
        (None, Some y) \<Rightarrow>
          (let (x, y') = ctor_move_conv y
           in Some (w\<lparr>handles := (handles w)(r \<mapsto> y', h \<mapsto> x)\<rparr>))
      | _ \<Rightarrow> None)"
| "step (Destroy h) w =
     (case handles w h of
        None \<Rightarrow> None
      | Some x \<Rightarrow> do {
          s \<leftarrow> dtor x (heap_of w);
          Some (w\<lparr>heap_of := s, handles := (handles w)(h := None)\<rparr>) })"
| "step (AssignCopy t r) w =
     (case (handles w t, handles w r) of
        (Some x, Some y) \<Rightarrow> do {
          (x', s) \<leftarrow> assign_copy x y (heap_of w);
          Some (w\<lparr>heap_of := s, handles := (handles w)(t \<mapsto> x')\<rparr>) }
      | _ \<Rightarrow> None)"
| "step (AssignCopyConv t r) w =
     (case (handles w t, handles w r) of
        (Some x, Some y) \<Rightarrow>
          if t = r then None
          else do {
            (x', s) \<leftarrow> assign_copy_conv x y (heap_of w);
            Some (w\<lparr>heap_of := s, handles := (handles w)(t \<mapsto> x')\<rparr>) }
      | _ \<Rightarrow> None)"
| "step (AssignRaw t p) w =
     (case handles w t of
        None \<Rightarrow> None
      | Some x \<Rightarrow> do {
          (x', s) \<leftarrow> assign_raw x p (heap_of w);
          Some (w\<lparr>heap_of := s, handles := (handles w)(t \<mapsto> x')\<rparr>) })"
| "step (AssignMove t r) w =
     (case (handles w t, handles w r) of
        (Some x, Some y) \<Rightarrow> do {
          ((x', y'), s) \<leftarrow> assign_move x y (heap_of w);
          Some (w\<lparr>heap_of := s, handles := (handles w)(r \<mapsto> y', t \<mapsto> x')\<rparr>) }
      | _ \<Rightarrow> None)"
| "step (AssignMoveConv t r) w =
     (case (handles w t, handles w r) of
        (Some x, Some y) \<Rightarrow>
          if t = r then None
          else do {
            ((x', y'), s) \<leftarrow> assign_move_conv x y (heap_of w);
            Some (w\<lparr>heap_of := s, handles := (handles w)(r \<mapsto> y', t \<mapsto> x')\<rparr>) }
      | _ \<Rightarrow> None)"
| "step (Reset t) w =
     (case handles w t of
        None \<Rightarrow> None
      | Some x \<Rightarrow> do {
          (x', s) \<leftarrow> reset x (heap_of w);
          Some (w\<lparr>heap_of := s, handles := (handles w)(t \<mapsto> x')\<rparr>) })"
| "step (ResetPtr t p) w =
     (case handles w t of
        None \<Rightarrow> None
      | Some x \<Rightarrow> do {
          (x', s) \<leftarrow> reset_ptr x p (heap_of w);
          Some (w\<lparr>heap_of := s, handles := (handles w)(t \<mapsto> x')\<rparr>) })"
| "step (ResetPtrFlag t p add_ref) w =
     (case handles w t of
        None \<Rightarrow> None
      | Some x \<Rightarrow> do {
          (x', s) \<leftarrow> reset_ptr_flag x p add_ref (heap_of w);
          Some (w\<lparr>heap_of := s, handles := (handles w)(t \<mapsto> x'),
                   owed := hand_over p add_ref (owed w)\<rparr>) })"
| "step (Detach h) w =
     (case handles w h of
        None \<Rightarrow> None
      | Some x \<Rightarrow>
          (let (p, x') = detach x
           in Some (w\<lparr>handles := (handles w)(h \<mapsto> x'), owed := receive p (owed w)\<rparr>)))"
| "step (Swap a b) w =
     (case (handles w a, handles w b) of
        (Some x, Some y) \<Rightarrow>
          (let (x', y') = swap x y
           in Some (w\<lparr>handles := (handles w)(b \<mapsto> y', a \<mapsto> x')\<rparr>))
      | _ \<Rightarrow> None)"
| "step (HookAddRef p) w =
     do {
       s \<leftarrow> intrusive_ptr_add_ref p (heap_of w);
       Some (w\<lparr>heap_of := s, owed := (owed w)(p := owed w p + 1)\<rparr>) }"
| "step (HookRelease p) w =
     do {
       s \<leftarrow> intrusive_ptr_release p (heap_of w);
       Some (w\<lparr>heap_of := s, owed := (owed w)(p := owed w p - 1)\<rparr>) }"

text \<open>A sequence of operations stops at the first one that yields \<open>None\<close>.\<close>

fun run :: "action list \<Rightarrow> world \<Rightarrow> world option" where
  "run [] w = Some w"
| "run (a # as) w = (case step a w of None \<Rightarrow> None | Some w' \<Rightarrow> run as w')"

subsection \<open>Owning references\<close>

text \<open>
  The owning references to a pointee are the live handles that store its address and
  the references the client holds through raw pointers.
\<close>

definition holders :: "(hid \<rightharpoonup> intrusive_ptr) \<Rightarrow> ptr \<Rightarrow> nat" where
  "holders H q = card {h. H h = Some \<lparr>m_pointer = q\<rparr>}"

definition owners :: "world \<Rightarrow> ptr \<Rightarrow> nat" where
  "owners w q = holders (handles w) q + owed w q"

definition alive :: "world \<Rightarrow> ptr \<Rightarrow> bool" where
  "alive w q = (objs (heap_of w) q \<noteq> None)"

text \<open>The hook calls and deletions of a pointee in a trace.\<close>

fun is_add_ref :: "ptr \<Rightarrow> event \<Rightarrow> bool" where
  "is_add_ref p (AddRef q v) = (q = p)"
| "is_add_ref p (Release q v) = False"
| "is_add_ref p (Delete q) = False"

fun is_release :: "ptr \<Rightarrow> event \<Rightarrow> bool" where
  "is_release p (AddRef q v) = False"
| "is_release p (Release q v) = (q = p)"
| "is_release p (Delete q) = False"

definition increments :: "ptr \<Rightarrow> event list \<Rightarrow> nat" where
  "increments p es = length (filter (is_add_ref p) es)"

definition decrements :: "ptr \<Rightarrow> event list \<Rightarrow> nat" where
  "decrements p es = length (filter (is_release p) es)"

definition deletions :: "ptr \<Rightarrow> event list \<Rightarrow> nat" where
  "deletions p es = count_list es (Delete p)"

subsection \<open>What the client owes\<close>

text \<open>
  The documented preconditions of the interface, per operation. A raw pointer given to
  a handle is null or points to a live pointee. With \<^verbatim>\<open>add_ref = false\<close> the client
  hands over a reference it holds. The client releases only a reference it holds. A
  copy, an assignment of a raw pointer or of a handle to copy from, and the client's own
  increment find the counter of the pointee they share below the largest value of
  \<^verbatim>\<open>unsigned int\<close>.
\<close>

definition room :: "world \<Rightarrow> ptr \<Rightarrow> bool" where
  "room w p = (case objs (heap_of w) p of None \<Rightarrow> True | Some c \<Rightarrow> counter c \<noteq> - 1)"

definition raw_ok :: "world \<Rightarrow> ptr \<Rightarrow> bool \<Rightarrow> bool" where
  "raw_ok w p add_ref =
     (p = nullptr \<or> (alive w p \<and> (if add_ref then room w p else 0 < owed w p)))"

fun obeys :: "action \<Rightarrow> world \<Rightarrow> bool" where
  "obeys (Construct h p add_ref) w = (handles w h = None \<and> raw_ok w p add_ref)"
| "obeys (DefaultConstruct h) w = (handles w h = None)"
| "obeys (CopyConstruct h r) w =
     (handles w h = None \<and>
      (case handles w r of None \<Rightarrow> False | Some y \<Rightarrow> room w (m_pointer y)))"
| "obeys (CopyConstructConv h r) w =
     (handles w h = None \<and>
      (case handles w r of None \<Rightarrow> False | Some y \<Rightarrow> room w (m_pointer y)))"
| "obeys (MoveConstruct h r) w = (handles w h = None \<and> handles w r \<noteq> None)"
| "obeys (MoveConstructConv h r) w = (handles w h = None \<and> handles w r \<noteq> None)"
| "obeys (Destroy h) w = (handles w h \<noteq> None)"
| "obeys (AssignCopy t r) w =
     (handles w t \<noteq> None \<and>
      (case handles w r of None \<Rightarrow> False | Some y \<Rightarrow> room w (m_pointer y)))"
| "obeys (AssignCopyConv t r) w =
     (t \<noteq> r \<and> handles w t \<noteq> None \<and>
      (case handles w r of None \<Rightarrow> False | Some y \<Rightarrow> room w (m_pointer y)))"
| "obeys (AssignRaw t p) w = (handles w t \<noteq> None \<and> raw_ok w p True)"
| "obeys (AssignMove t r) w = (handles w t \<noteq> None \<and> handles w r \<noteq> None)"
| "obeys (AssignMoveConv t r) w = (t \<noteq> r \<and> handles w t \<noteq> None \<and> handles w r \<noteq> None)"
| "obeys (Reset t) w = (handles w t \<noteq> None)"
| "obeys (ResetPtr t p) w = (handles w t \<noteq> None \<and> raw_ok w p True)"
| "obeys (ResetPtrFlag t p add_ref) w = (handles w t \<noteq> None \<and> raw_ok w p add_ref)"
| "obeys (Detach h) w = (handles w h \<noteq> None)"
| "obeys (Swap a b) w = (handles w a \<noteq> None \<and> handles w b \<noteq> None)"
| "obeys (HookAddRef p) w = (p \<noteq> nullptr \<and> alive w p \<and> room w p)"
| "obeys (HookRelease p) w = (p \<noteq> nullptr \<and> 0 < owed w p)"

text \<open>
  A sequence is disciplined when every operation meets its preconditions in the world
  it is run in. Nothing is required of what follows an operation that fails.
\<close>

fun disciplined :: "action list \<Rightarrow> world \<Rightarrow> bool" where
  "disciplined [] w = True"
| "disciplined (a # as) w =
     (obeys a w \<and> (case step a w of None \<Rightarrow> True | Some w' \<Rightarrow> disciplined as w'))"

text \<open>
  The counter of every live pointee is the number of its owning references, and a
  pointee that was deleted has none.
\<close>

definition counted :: "heap \<Rightarrow> (ptr \<Rightarrow> nat) \<Rightarrow> bool" where
  "counted s n =
     (\<forall>q. q \<noteq> nullptr \<longrightarrow>
        (case objs s q of None \<Rightarrow> n q = 0 | Some c \<Rightarrow> unat (counter c) = n q))"

definition world_inv :: "world \<Rightarrow> bool" where
  "world_inv w = (finite (dom (handles w)) \<and> counted (heap_of w) (owners w))"

text \<open>
  The ledger of a pointee: the increments recorded for it are its decrements plus its
  current count, and it was deleted once if it is gone and never if it is alive.
\<close>

definition ledger :: "heap \<Rightarrow> ptr \<Rightarrow> bool" where
  "ledger s p =
     (increments p (trace s) =
        decrements p (trace s) + (case objs s p of None \<Rightarrow> 0 | Some c \<Rightarrow> unat (counter c))
      \<and> deletions p (trace s) = (if objs s p = None then 1 else 0))"

text \<open>A pointee that was just constructed: alive, counter 0, no hook called yet.\<close>

definition pristine :: "world \<Rightarrow> ptr \<Rightarrow> bool" where
  "pristine w p =
     (p \<noteq> nullptr \<and> objs (heap_of w) p = Some ref_counter_default \<and> trace (heap_of w) = [])"

text \<open>
  A world to run examples in: one pointee at address 1, just constructed; no handle
  exists and the client holds no reference.
\<close>

definition fresh_world :: world where
  "fresh_world =
     \<lparr>heap_of = \<lparr>objs = [1 \<mapsto> ref_counter_default], trace = []\<rparr>,
      handles = Map.empty,
      owed = (\<lambda>q. 0)\<rparr>"

subsection \<open>Vocabulary of the proofs\<close>

text \<open>The pointee an event is about.\<close>

fun subject :: "event \<Rightarrow> ptr" where
  "subject (AddRef q v) = q"
| "subject (Release q v) = q"
| "subject (Delete q) = q"

text \<open>
  The two guarded hook calls every operation of the handle is made of:
  \<^verbatim>\<open>if (p != nullptr) intrusive_ptr_add_ref(p);\<close> and
  \<^verbatim>\<open>if (p != nullptr) intrusive_ptr_release(p);\<close>.
\<close>

definition acquire :: "ptr \<Rightarrow> heap \<Rightarrow> heap option" where
  "acquire p s = (if p \<noteq> nullptr then intrusive_ptr_add_ref p s else Some s)"

definition relinquish :: "ptr \<Rightarrow> heap \<Rightarrow> heap option" where
  "relinquish p s = (if p \<noteq> nullptr then intrusive_ptr_release p s else Some s)"

text \<open>
  An operation is sound in a world for a pointee when it returns, the counters are
  again the numbers of owning references, the ledger of the pointee is again balanced,
  the pointee is deleted by it exactly if its owning references go from some to none,
  and a pointee that was deleted before is not alive after.
\<close>

definition sound_step :: "action \<Rightarrow> world \<Rightarrow> ptr \<Rightarrow> bool" where
  "sound_step act w p =
     (\<exists>w'. step act w = Some w' \<and> world_inv w' \<and> ledger (heap_of w') p
        \<and> ((alive w p \<and> \<not> alive w' p) = (0 < owners w p \<and> owners w' p = 0))
        \<and> (alive w' p \<longrightarrow> alive w p))"

section \<open>Basic facts\<close>

text \<open>A handle is its pointer: the record has no other field.\<close>

lemma handle_update: "r\<lparr>m_pointer := p\<rparr> = \<lparr>m_pointer = p\<rparr>"
  by (cases r) simp

lemma handle_eta: "\<lparr>m_pointer = m_pointer r\<rparr> = r"
  by (cases r) simp

lemma handle_eq_iff: "(a = b) = (m_pointer a = m_pointer (b::intrusive_ptr))"
  by (cases a; cases b) simp

lemmas handle_simps = handle_update handle_eta get_def detach_def swap_def ctor_default_def
  ctor_move_def ctor_move_conv_def

lemma bind_Some_map: "x \<bind> (\<lambda>y. Some (f y)) = map_option f x"
  by (cases x) simp_all

lemma max32: "(- 1 :: 32 word) = 4294967295"
  by simp

text \<open>
  The destructor extends the trace by events about the pointer of the handle only,
  none of them an increment, and leaves every other pointee as it is.
\<close>

lemma dtor_frame:
  assumes "dtor this s = Some s'"
  shows "\<exists>es. trace s' = trace s @ es
           \<and> (\<forall>e \<in> set es. subject e = m_pointer this \<and> subject e \<noteq> nullptr
                  \<and> (\<forall>q. \<not> is_add_ref q e))
           \<and> (\<forall>q. q \<noteq> m_pointer this \<longrightarrow> objs s' q = objs s q)"
  using assms
  by (auto simp: dtor_def intrusive_ptr_release_def Let_def split: if_splits option.splits)

text \<open>The temporary-and-swap idiom: construct, then destroy the previous content.\<close>

lemma swap_tmp:
  "do { (tmp, s1) \<leftarrow> ctor_raw p b s;
        let (tmp', this') = swap tmp this;
        s2 \<leftarrow> dtor tmp' s1;
        Some (this', s2) }
   = do { (n, s1) \<leftarrow> ctor_raw p b s; s2 \<leftarrow> dtor this s1; Some (n, s2) }"
  by (cases "ctor_raw p b s") (auto simp: handle_simps)

lemma ctor_raw_handle: "ctor_raw p b s = Some (n, s1) \<Longrightarrow> n = \<lparr>m_pointer = p\<rparr>"
  by (auto simp: ctor_raw_def Let_def split: if_splits Option.bind_splits)

section \<open>The counter base\<close>

text \<open>
  C6. A counter base that is default-constructed or copy-constructed starts at 0,
  whatever the counter of the source is, and copy assignment leaves the target's
  counter as it was, whatever the counter of the source is: no count is copied or
  merged between instances.
\<close>

theorem ref_counter_never_copies_count:
  "use_count ref_counter_default = 0
   \<and> use_count (ref_counter_copy other) = 0
   \<and> use_count (ref_counter_assign this other) = use_count this
   \<and> ref_counter_assign this other = this"
  by (simp add: use_count_def ref_counter_default_def ref_counter_copy_def
      ref_counter_assign_def)

text \<open>
  C10. The release hook on a live pointee whose counter is 0 does not delete it: the
  call returns, the pointee is still on the heap, its counter is 2^32 - 1, and the
  call added one release event to the trace and no deletion.
\<close>

theorem release_at_zero_wraps:
  assumes "objs s p = Some c" and "use_count c = 0"
  shows "\<exists>s' c'. intrusive_ptr_release p s = Some s' \<and> objs s' p = Some c'
           \<and> unat (use_count c') = 2 ^ 32 - 1
           \<and> trace s' = trace s @ [Release p (use_count c')]"
  using assms by (simp add: intrusive_ptr_release_def use_count_def Let_def max32)

theorem release_at_zero_wraps_witness:
  "objs \<lparr>objs = [1 \<mapsto> ref_counter_default], trace = []\<rparr> 1 = Some ref_counter_default
   \<and> use_count ref_counter_default = 0
   \<and> (\<exists>s' c'. intrusive_ptr_release 1 \<lparr>objs = [1 \<mapsto> ref_counter_default], trace = []\<rparr>
                  = Some s'
         \<and> objs s' 1 = Some c' \<and> unat (use_count c') = 2 ^ 32 - 1
         \<and> trace s' = [Release 1 (use_count c')])"
proof -
  let ?s = "\<lparr>objs = [1 \<mapsto> ref_counter_default], trace = []\<rparr>"
  have a: "objs ?s 1 = Some ref_counter_default"
    by simp
  have b: "use_count ref_counter_default = 0"
    by (simp add: use_count_def ref_counter_default_def)
  show ?thesis
    using a b release_at_zero_wraps [OF a b] by simp
qed

section \<open>The handle: single operations\<close>

text \<open>
  C2. Copy assignment and move assignment between handles that hold the same pointer
  (in particular of a handle to itself) return with both handles and the whole heap
  unchanged: no counter is written and the trace gains no event, so no hook is called
  and the count is not decremented even for a moment, whatever the count is.
\<close>

theorem self_assignment_noop:
  "m_pointer r = m_pointer this \<Longrightarrow>
     assign_copy this r s = Some (this, s) \<and> assign_move this r s = Some ((this, r), s)"
  by (simp add: assign_copy_def assign_move_def)

theorem self_assignment_noop_witness:
  "m_pointer \<lparr>m_pointer = 1\<rparr> = m_pointer \<lparr>m_pointer = 1\<rparr>
   \<and> map_option use_count (objs \<lparr>objs = [1 \<mapsto> \<lparr>counter = 1\<rparr>], trace = []\<rparr> 1) = Some 1
   \<and> assign_copy \<lparr>m_pointer = 1\<rparr> \<lparr>m_pointer = 1\<rparr>
        \<lparr>objs = [1 \<mapsto> \<lparr>counter = 1\<rparr>], trace = []\<rparr>
       = Some (\<lparr>m_pointer = 1\<rparr>, \<lparr>objs = [1 \<mapsto> \<lparr>counter = 1\<rparr>], trace = []\<rparr>)
   \<and> assign_move \<lparr>m_pointer = 1\<rparr> \<lparr>m_pointer = 1\<rparr>
        \<lparr>objs = [1 \<mapsto> \<lparr>counter = 1\<rparr>], trace = []\<rparr>
       = Some ((\<lparr>m_pointer = 1\<rparr>, \<lparr>m_pointer = 1\<rparr>),
               \<lparr>objs = [1 \<mapsto> \<lparr>counter = 1\<rparr>], trace = []\<rparr>)"
  using self_assignment_noop [of "\<lparr>m_pointer = 1\<rparr>" "\<lparr>m_pointer = 1\<rparr>"
      "\<lparr>objs = [1 \<mapsto> \<lparr>counter = 1\<rparr>], trace = []\<rparr>"]
  by (simp add: use_count_def)

text \<open>
  C3, as the claim states it, fails for move assignment between two handles that hold
  the same pointer. Handles \<open>a\<close> and \<open>b\<close> both hold the pointee at address 1, whose
  count is 2. After \<^verbatim>\<open>a = std::move(b)\<close> the source \<open>b\<close> still holds the pointer (the
  guard \<^verbatim>\<open>r.m_pointer != m_pointer\<close> skips the body). After the converting move
  assignment the source is empty, but the release hook was called on the pointee and
  its count is 1.
\<close>

theorem move_assign_same_pointer_counterexample:
  "assign_move \<lparr>m_pointer = 1\<rparr> \<lparr>m_pointer = 1\<rparr>
      \<lparr>objs = [1 \<mapsto> \<lparr>counter = 2\<rparr>], trace = []\<rparr>
    = Some ((\<lparr>m_pointer = 1\<rparr>, \<lparr>m_pointer = 1\<rparr>),
            \<lparr>objs = [1 \<mapsto> \<lparr>counter = 2\<rparr>], trace = []\<rparr>)
   \<and> operator_bool \<lparr>m_pointer = 1\<rparr>
   \<and> assign_move_conv \<lparr>m_pointer = 1\<rparr> \<lparr>m_pointer = 1\<rparr>
      \<lparr>objs = [1 \<mapsto> \<lparr>counter = 2\<rparr>], trace = []\<rparr>
    = Some ((\<lparr>m_pointer = 1\<rparr>, \<lparr>m_pointer = nullptr\<rparr>),
            \<lparr>objs = [1 \<mapsto> \<lparr>counter = 1\<rparr>], trace = [Release 1 1]\<rparr>)"
  by (simp add: assign_move_def assign_move_conv_def handle_simps dtor_def
      intrusive_ptr_release_def operator_bool_def)

text \<open>
  C3, amended. Move construction and converting move construction do not involve the
  heap: the new handle holds the pointer of the source and the source is left empty.
  Converting move assignment gives the target the pointer of the source, leaves the
  source empty and changes the heap exactly as destroying the previous content of the
  target does. Move assignment between handles that hold different pointers does the
  same. Whenever source and target hold different pointers, that destruction leaves the
  counter of the moved pointee as it was and adds no event about the moved pointee to
  the trace: the assignment calls no hook on it. Move assignment between handles that
  hold the same pointer changes nothing: the source keeps its pointer. (Converting move
  assignment between handles that hold the same pointer is covered by the second
  sentence: the source is emptied and the previous content of the target, which is the
  shared pointee, is released once.)
\<close>

theorem move_transfers_ownership:
  "ctor_move r = (r, ctor_default)
   \<and> ctor_move_conv r = (r, ctor_default)
   \<and> assign_move_conv this r s = map_option (Pair (r, ctor_default)) (dtor this s)
   \<and> (m_pointer r \<noteq> m_pointer this \<longrightarrow>
        assign_move this r s = map_option (Pair (r, ctor_default)) (dtor this s)
        \<and> (\<forall>s'. dtor this s = Some s' \<longrightarrow>
              objs s' (m_pointer r) = objs s (m_pointer r)
              \<and> (\<exists>es. trace s' = trace s @ es \<and> m_pointer r \<notin> subject ` set es)))
   \<and> (m_pointer r = m_pointer this \<longrightarrow> assign_move this r s = Some ((this, r), s))"
proof -
  have moved: "ctor_move r = (r, ctor_default)" "ctor_move_conv r = (r, ctor_default)"
    by (simp_all add: handle_simps)
  have conv: "assign_move_conv this r s = map_option (Pair (r, ctor_default)) (dtor this s)"
    by (cases "dtor this s") (simp_all add: assign_move_conv_def handle_simps)
  have same: "m_pointer r = m_pointer this \<longrightarrow> assign_move this r s = Some ((this, r), s)"
    by (simp add: assign_move_def)
  have differ: "assign_move this r s = map_option (Pair (r, ctor_default)) (dtor this s)"
    if "m_pointer r \<noteq> m_pointer this"
    using that by (cases "dtor this s") (simp_all add: assign_move_def handle_simps)
  have frame: "objs s' (m_pointer r) = objs s (m_pointer r)
              \<and> (\<exists>es. trace s' = trace s @ es \<and> m_pointer r \<notin> subject ` set es)"
    if "m_pointer r \<noteq> m_pointer this" "dtor this s = Some s'" for s'
    using dtor_frame [OF that(2)] that(1) by fastforce
  show ?thesis
    using moved conv same differ frame by blast
qed

theorem move_transfers_ownership_witness:
  "m_pointer \<lparr>m_pointer = 1\<rparr> \<noteq> m_pointer \<lparr>m_pointer = 2\<rparr>
   \<and> dtor \<lparr>m_pointer = 2\<rparr>
        \<lparr>objs = [1 \<mapsto> \<lparr>counter = 1\<rparr>, 2 \<mapsto> \<lparr>counter = 1\<rparr>], trace = []\<rparr>
       = Some \<lparr>objs = [1 \<mapsto> \<lparr>counter = 1\<rparr>], trace = [Release 2 0, Delete 2]\<rparr>
   \<and> assign_move \<lparr>m_pointer = 2\<rparr> \<lparr>m_pointer = 1\<rparr>
        \<lparr>objs = [1 \<mapsto> \<lparr>counter = 1\<rparr>, 2 \<mapsto> \<lparr>counter = 1\<rparr>], trace = []\<rparr>
       = Some ((\<lparr>m_pointer = 1\<rparr>, ctor_default),
               \<lparr>objs = [1 \<mapsto> \<lparr>counter = 1\<rparr>], trace = [Release 2 0, Delete 2]\<rparr>)
   \<and> m_pointer \<lparr>m_pointer = 3\<rparr> = m_pointer \<lparr>m_pointer = 3\<rparr>
   \<and> assign_move \<lparr>m_pointer = 3\<rparr> \<lparr>m_pointer = 3\<rparr> \<lparr>objs = Map.empty, trace = []\<rparr>
       = Some ((\<lparr>m_pointer = 3\<rparr>, \<lparr>m_pointer = 3\<rparr>), \<lparr>objs = Map.empty, trace = []\<rparr>)"
proof -
  let ?s = "\<lparr>objs = [1 \<mapsto> \<lparr>counter = 1\<rparr>, 2 \<mapsto> \<lparr>counter = 1\<rparr>], trace = []\<rparr>"
  let ?s' = "\<lparr>objs = [1 \<mapsto> \<lparr>counter = 1\<rparr>], trace = [Release 2 0, Delete 2]\<rparr>"
  have ne: "m_pointer \<lparr>m_pointer = 1\<rparr> \<noteq> m_pointer \<lparr>m_pointer = 2\<rparr>"
    by simp
  have d: "dtor \<lparr>m_pointer = 2\<rparr> ?s = Some ?s'"
    by (simp add: dtor_def intrusive_ptr_release_def fun_upd_twist)
  have eq: "m_pointer \<lparr>m_pointer = 3\<rparr> = m_pointer \<lparr>m_pointer = 3\<rparr>"
    by simp
  from move_transfers_ownership [of "\<lparr>m_pointer = 1\<rparr>" "\<lparr>m_pointer = 2\<rparr>" ?s] ne d
  have "assign_move \<lparr>m_pointer = 2\<rparr> \<lparr>m_pointer = 1\<rparr> ?s
          = Some ((\<lparr>m_pointer = 1\<rparr>, ctor_default), ?s')"
    by simp
  moreover from move_transfers_ownership
      [of "\<lparr>m_pointer = 3\<rparr>" "\<lparr>m_pointer = 3\<rparr>" "\<lparr>objs = Map.empty, trace = []\<rparr>"] eq
  have "assign_move \<lparr>m_pointer = 3\<rparr> \<lparr>m_pointer = 3\<rparr> \<lparr>objs = Map.empty, trace = []\<rparr>
       = Some ((\<lparr>m_pointer = 3\<rparr>, \<lparr>m_pointer = 3\<rparr>), \<lparr>objs = Map.empty, trace = []\<rparr>)"
    by blast
  ultimately show ?thesis using ne d eq by blast
qed

text \<open>
  C4. \<^verbatim>\<open>detach()\<close> returns the stored pointer and leaves the handle empty; it has no
  access to the heap, so it performs no decrement. Constructing a handle from the
  returned pointer with \<^verbatim>\<open>add_ref = false\<close> gives a handle equal to the one detached
  and returns the heap as it was: every counter, and so \<^verbatim>\<open>use_count()\<close> of the pointee,
  is unchanged across the round trip, and no hook was called.
\<close>

theorem detach_round_trip:
  "detach this = (get this, ctor_default)
   \<and> ctor_raw (fst (detach this)) False s = Some (this, s)
   \<and> (do { let (p, this') = detach this; (h, s') \<leftarrow> ctor_raw p False s; Some (this', h, s') })
        = Some (ctor_default, this, s)"
  by (simp add: detach_def get_def ctor_default_def ctor_raw_def Let_def handle_simps)

text \<open>
  C5. Constructing a handle from a null raw pointer, with either value of the flag, and
  copying an empty handle succeed, give an empty handle and return the heap as it was:
  no hook is called. Assigning a null raw pointer or an empty handle, and \<^verbatim>\<open>reset\<close> to
  a null raw pointer, leave the target empty and change the heap exactly as destroying
  the previous content of the target does; for an empty target that is no change.
  Whatever that destruction adds to the trace, no event is about the null pointer and
  none is an increment.
\<close>

theorem null_source_gives_empty_handle:
  "ctor_raw nullptr add_ref s = Some (ctor_default, s)
   \<and> ctor_copy ctor_default s = Some (ctor_default, s)
   \<and> ctor_copy_conv ctor_default s = Some (ctor_default, s)
   \<and> assign_raw this nullptr s = map_option (Pair ctor_default) (dtor this s)
   \<and> assign_copy this ctor_default s = map_option (Pair ctor_default) (dtor this s)
   \<and> assign_copy_conv this ctor_default s = map_option (Pair ctor_default) (dtor this s)
   \<and> reset_ptr this nullptr s = map_option (Pair ctor_default) (dtor this s)
   \<and> reset_ptr_flag this nullptr add_ref s = map_option (Pair ctor_default) (dtor this s)
   \<and> dtor ctor_default s = Some s
   \<and> (\<forall>s'. dtor this s = Some s' \<longrightarrow>
         (\<exists>es. trace s' = trace s @ es
            \<and> (\<forall>e \<in> set es. subject e \<noteq> nullptr \<and> \<not> is_add_ref (subject e) e)))"
proof -
  have ctors: "ctor_raw nullptr b s1 = Some (\<lparr>m_pointer = nullptr\<rparr>, s1)"
    "ctor_copy \<lparr>m_pointer = nullptr\<rparr> s1 = Some (\<lparr>m_pointer = nullptr\<rparr>, s1)"
    "ctor_copy_conv \<lparr>m_pointer = nullptr\<rparr> s1 = Some (\<lparr>m_pointer = nullptr\<rparr>, s1)" for b s1
    by (simp_all add: ctor_raw_def ctor_copy_def ctor_copy_conv_def get_def)
  have assigns: "assign_raw this nullptr s = map_option (Pair ctor_default) (dtor this s)"
    "assign_copy_conv this ctor_default s = map_option (Pair ctor_default) (dtor this s)"
    "reset_ptr this nullptr s = map_option (Pair ctor_default) (dtor this s)"
    "reset_ptr_flag this nullptr add_ref s = map_option (Pair ctor_default) (dtor this s)"
    by (simp_all add: assign_raw_def assign_copy_conv_def reset_ptr_def reset_ptr_flag_def
        ctors handle_simps bind_Some_map)
  have guarded: "assign_copy this ctor_default s = map_option (Pair ctor_default) (dtor this s)"
    by (simp add: assign_copy_def ctors handle_simps bind_Some_map dtor_def handle_eq_iff)
  have none: "dtor ctor_default s = Some s"
    by (simp add: dtor_def ctor_default_def)
  have hooks: "\<exists>es. trace s' = trace s @ es
            \<and> (\<forall>e \<in> set es. subject e \<noteq> nullptr \<and> \<not> is_add_ref (subject e) e)"
    if "dtor this s = Some s'" for s'
    using dtor_frame [OF that] by blast
  show ?thesis
    using ctors [folded ctor_default_def] assigns guarded none hooks by blast
qed

theorem null_source_gives_empty_handle_witness:
  "dtor \<lparr>m_pointer = 1\<rparr> \<lparr>objs = [1 \<mapsto> \<lparr>counter = 2\<rparr>], trace = []\<rparr>
      = Some \<lparr>objs = [1 \<mapsto> \<lparr>counter = 1\<rparr>], trace = [Release 1 1]\<rparr>
   \<and> assign_raw \<lparr>m_pointer = 1\<rparr> nullptr \<lparr>objs = [1 \<mapsto> \<lparr>counter = 2\<rparr>], trace = []\<rparr>
      = Some (ctor_default, \<lparr>objs = [1 \<mapsto> \<lparr>counter = 1\<rparr>], trace = [Release 1 1]\<rparr>)
   \<and> (\<exists>es. [Release 1 1] = [] @ es
         \<and> (\<forall>e \<in> set es. subject e \<noteq> nullptr \<and> \<not> is_add_ref (subject e) e))"
proof -
  let ?s = "\<lparr>objs = [1 \<mapsto> \<lparr>counter = 2\<rparr>], trace = []\<rparr>"
  let ?s' = "\<lparr>objs = [1 \<mapsto> \<lparr>counter = 1\<rparr>], trace = [Release 1 1]\<rparr>"
  have d: "dtor \<lparr>m_pointer = 1\<rparr> ?s = Some ?s'"
    by (simp add: dtor_def intrusive_ptr_release_def)
  note all = null_source_gives_empty_handle [of True ?s "\<lparr>m_pointer = 1\<rparr>"]
  from all d have "assign_raw \<lparr>m_pointer = 1\<rparr> nullptr ?s = Some (ctor_default, ?s')"
    by simp
  moreover from all d
  have "\<exists>es. trace ?s' = trace ?s @ es
         \<and> (\<forall>e \<in> set es. subject e \<noteq> nullptr \<and> \<not> is_add_ref (subject e) e)"
    by blast
  ultimately show ?thesis using d by simp
qed

text \<open>
  C7. \<^verbatim>\<open>reset(p, b)\<close> returns the same handle and the same heap, trace included (or is
  undefined in the same cases), as assigning the freshly constructed handle
  \<^verbatim>\<open>intrusive_ptr(p, b)\<close>; \<^verbatim>\<open>reset(p)\<close> is the case \<^verbatim>\<open>b = true\<close> and is the same as
  assigning the raw pointer. Each of them constructs the new handle first (with its
  increment, if any) and then destroys the previous content of the target.
\<close>

theorem reset_refines_fresh_assignment:
  "reset_ptr_flag this p b s = assign_fresh this p b s
   \<and> reset_ptr this p s = assign_fresh this p True s
   \<and> reset_ptr this p s = assign_raw this p s
   \<and> reset_ptr_flag this p b s =
       do { (n, s1) \<leftarrow> ctor_raw p b s; s2 \<leftarrow> dtor this s1; Some (n, s2) }"
proof -
  have mech: "reset_ptr_flag this p b s =
       do { (n, s1) \<leftarrow> ctor_raw p b s; s2 \<leftarrow> dtor this s1; Some (n, s2) }" for b
    unfolding reset_ptr_flag_def by (rule swap_tmp)
  have fresh: "assign_fresh this p b s =
       do { (n, s1) \<leftarrow> ctor_raw p b s; s2 \<leftarrow> dtor this s1; Some (n, s2) }" for b
  proof (cases "ctor_raw p b s")
    case None
    then show ?thesis by (simp add: assign_fresh_def)
  next
    case (Some a)
    obtain n s1 where a: "a = (n, s1)" by (cases a)
    have n: "n = \<lparr>m_pointer = p\<rparr>" using Some a ctor_raw_handle by blast
    show ?thesis
    proof (cases "p = m_pointer this")
      case True
      then have "n = this" using n by (simp add: handle_eta)
      then show ?thesis
        using Some a by (cases "dtor this s1") (simp_all add: assign_fresh_def assign_move_def)
    next
      case False
      then show ?thesis
        using Some a n
        by (cases "dtor this s1")
          (simp_all add: assign_fresh_def assign_move_def handle_simps dtor_def)
    qed
  qed
  have one: "reset_ptr this p s = reset_ptr_flag this p True s"
    "assign_raw this p s = reset_ptr_flag this p True s"
    by (simp_all add: reset_ptr_def assign_raw_def reset_ptr_flag_def)
  show ?thesis
    using mech [of b] mech [of True] fresh [of b] fresh [of True] one by simp
qed

text \<open>
  C8. A comparison computes a truth value from the two raw pointers and has no access
  to the heap. Equality of two handles, of a handle and a raw pointer and of a raw
  pointer and a handle holds exactly when the raw pointers are equal (for a handle and
  a raw pointer: when \<^verbatim>\<open>get()\<close> returns that pointer), each inequality is the negation,
  two empty handles are equal, equality is reflexive and symmetric, and \<^verbatim>\<open>operator<\<close>
  is the order of the pointers: irreflexive, asymmetric and total.
\<close>

theorem comparisons_are_pointer_identity:
  "eq_handles a b = (get a = get b)
   \<and> ne_handles a b = (\<not> eq_handles a b)
   \<and> eq_handle_raw a p = (get a = p)
   \<and> eq_raw_handle p a = (get a = p)
   \<and> ne_handle_raw a p = (\<not> eq_handle_raw a p)
   \<and> ne_raw_handle p a = (\<not> eq_raw_handle p a)
   \<and> eq_handles ctor_default ctor_default
   \<and> eq_handles a a
   \<and> eq_handles a b = eq_handles b a
   \<and> eq_raw_handle p a = eq_handle_raw a p
   \<and> less_handles a b = (get a < get b)
   \<and> \<not> less_handles a a
   \<and> (less_handles a b \<or> eq_handles a b \<or> less_handles b a)
   \<and> \<not> (less_handles a b \<and> less_handles b a)"
  by (auto simp: eq_handles_def ne_handles_def eq_handle_raw_def eq_raw_handle_def
      ne_handle_raw_def ne_raw_handle_def less_handles_def)

text \<open>
  C9, as the claim states it, fails for a non-empty handle whose pointee has the count
  0, as after \<^verbatim>\<open>intrusive_ptr<T> h(new T, false);\<close>. The assignment \<^verbatim>\<open>h = h.get()\<close>
  increments the count to 1, decrements it to 0 and deletes the pointee.
\<close>

theorem raw_self_assignment_counterexample:
  "assign_raw \<lparr>m_pointer = 1\<rparr> (get \<lparr>m_pointer = 1\<rparr>)
      \<lparr>objs = [1 \<mapsto> \<lparr>counter = 0\<rparr>], trace = []\<rparr>
    = Some (\<lparr>m_pointer = 1\<rparr>,
            \<lparr>objs = Map.empty, trace = [AddRef 1 1, Release 1 0, Delete 1]\<rparr>)"
  by (simp add: assign_raw_def ctor_raw_def handle_simps dtor_def intrusive_ptr_add_ref_def
      intrusive_ptr_release_def)

text \<open>
  C9, amended. For a non-empty handle whose pointee is alive with a count of at least
  1, \<^verbatim>\<open>h = h.get()\<close> returns with the handle and every counter unchanged and the
  pointee alive. The trace gains the increment and then the decrement, and nothing
  else: the decrement leaves the original count, which is not 0, so the pointee is not
  deleted. Unless the count was 2^32 - 1, the value the increment leaves is not 0
  either.
\<close>

theorem raw_self_assignment_keeps_pointee:
  assumes "m_pointer this = p" and "p \<noteq> nullptr" and "objs s p = Some c"
    and "use_count c \<noteq> 0"
  shows "\<exists>s'. assign_raw this (get this) s = Some (this, s')
           \<and> objs s' = objs s
           \<and> trace s' = trace s @ [AddRef p (use_count c + 1), Release p (use_count c)]
           \<and> (use_count c \<noteq> - 1 \<longrightarrow> use_count c + 1 \<noteq> 0)"
proof -
  have up: "(objs s)(p \<mapsto> c) = objs s"
    using assms(3) by (simp add: map_upd_triv)
  have wrap: "use_count c \<noteq> - 1 \<longrightarrow> use_count c + 1 \<noteq> 0"
    using max_word_wrap [of "use_count c"] by blast
  have "assign_raw this (get this) s
          = Some (this, s\<lparr>trace := trace s @ [AddRef p (use_count c + 1), Release p (use_count c)]\<rparr>)"
    using assms up
    by (simp add: assign_raw_def ctor_raw_def handle_simps dtor_def intrusive_ptr_add_ref_def
      intrusive_ptr_release_def use_count_def Let_def)
  then show ?thesis using wrap by simp
qed

theorem raw_self_assignment_keeps_pointee_witness:
  "m_pointer \<lparr>m_pointer = 1\<rparr> = 1 \<and> (1 :: ptr) \<noteq> nullptr
   \<and> objs \<lparr>objs = [1 \<mapsto> \<lparr>counter = 1\<rparr>], trace = []\<rparr> 1 = Some \<lparr>counter = 1\<rparr>
   \<and> use_count \<lparr>counter = 1\<rparr> \<noteq> 0
   \<and> assign_raw \<lparr>m_pointer = 1\<rparr> (get \<lparr>m_pointer = 1\<rparr>)
        \<lparr>objs = [1 \<mapsto> \<lparr>counter = 1\<rparr>], trace = []\<rparr>
      = Some (\<lparr>m_pointer = 1\<rparr>,
              \<lparr>objs = [1 \<mapsto> \<lparr>counter = 1\<rparr>], trace = [AddRef 1 2, Release 1 1]\<rparr>)"
proof -
  let ?s = "\<lparr>objs = [1 \<mapsto> \<lparr>counter = 1\<rparr>], trace = []\<rparr>"
  have h: "m_pointer \<lparr>m_pointer = 1\<rparr> = 1" "(1 :: ptr) \<noteq> nullptr"
    "objs ?s 1 = Some \<lparr>counter = 1\<rparr>" "use_count \<lparr>counter = 1\<rparr> \<noteq> 0"
    by (simp_all add: use_count_def)
  from raw_self_assignment_keeps_pointee [OF h] obtain s' where
    s': "assign_raw \<lparr>m_pointer = 1\<rparr> (get \<lparr>m_pointer = 1\<rparr>) ?s = Some (\<lparr>m_pointer = 1\<rparr>, s')"
    "objs s' = objs ?s"
    "trace s' = trace ?s @ [AddRef 1 (use_count \<lparr>counter = 1\<rparr> + 1),
                            Release 1 (use_count \<lparr>counter = 1\<rparr>)]"
    by blast
  then have "s' = \<lparr>objs = [1 \<mapsto> \<lparr>counter = 1\<rparr>], trace = [AddRef 1 2, Release 1 1]\<rparr>"
    by (cases s') (simp add: use_count_def)
  with s' h show ?thesis by simp
qed

section \<open>Programs: counters and owning references\<close>

subsection \<open>Counting the handles that hold a pointer\<close>

lemma holders_finite: "finite (dom H) \<Longrightarrow> finite {h. H h = Some x}"
  by (rule finite_subset [of _ "dom H"]) auto

lemma holders_fresh:
  assumes "finite (dom H)" and "H h = None"
  shows "holders (H(h \<mapsto> x)) q = holders H q + (if m_pointer x = q then 1 else 0)"
proof -
  let ?A = "{h'. H h' = Some \<lparr>m_pointer = q\<rparr>}"
  have fin: "finite ?A" using assms(1) by (rule holders_finite)
  have notin: "h \<notin> ?A" using assms(2) by simp
  have "{h'. (H(h \<mapsto> x)) h' = Some \<lparr>m_pointer = q\<rparr>}
          = (if m_pointer x = q then insert h ?A else ?A)"
    using assms(2) by (auto simp: handle_eq_iff)
  then show ?thesis
    using fin notin by (simp add: holders_def)
qed

lemma holders_remove:
  assumes "finite (dom H)" and "H h = Some y"
  shows "holders H q = holders (H(h := None)) q + (if m_pointer y = q then 1 else 0)"
proof -
  have "holders ((H(h := None))(h \<mapsto> y)) q
          = holders (H(h := None)) q + (if m_pointer y = q then 1 else 0)"
    using assms(1) by (intro holders_fresh) simp_all
  moreover have "(H(h := None))(h \<mapsto> y) = H"
    using assms(2) by (simp add: map_upd_triv)
  ultimately show ?thesis by simp
qed

lemma holders_replace:
  assumes "finite (dom H)" and "H h = Some y"
  shows "holders (H(h \<mapsto> x)) q + (if m_pointer y = q then 1 else 0)
           = holders H q + (if m_pointer x = q then 1 else 0)"
proof -
  have "holders ((H(h := None))(h \<mapsto> x)) q
          = holders (H(h := None)) q + (if m_pointer x = q then 1 else 0)"
    using assms(1) by (intro holders_fresh) simp_all
  then show ?thesis
    using holders_remove [OF assms, of q] by simp
qed

lemma holders_pos:
  assumes "finite (dom H)" and "H h = Some y"
  shows "0 < holders H (m_pointer y)"
  using holders_remove [OF assms, of "m_pointer y"] by simp

subsection \<open>The two hooks and the count\<close>

lemma countedI:
  assumes "\<And>q. q \<noteq> nullptr \<Longrightarrow> objs s q = None \<Longrightarrow> n q = 0"
    and "\<And>q c. q \<noteq> nullptr \<Longrightarrow> objs s q = Some c \<Longrightarrow> unat (counter c) = n q"
  shows "counted s n"
  unfolding counted_def
proof (intro allI impI)
  fix q :: ptr
  assume "q \<noteq> nullptr"
  then show "case objs s q of None \<Rightarrow> n q = 0 | Some c \<Rightarrow> unat (counter c) = n q"
    using assms [of q] by (cases "objs s q") simp_all
qed

lemma counted_dead: "counted s n \<Longrightarrow> q \<noteq> nullptr \<Longrightarrow> objs s q = None \<Longrightarrow> n q = 0"
  unfolding counted_def by (drule spec [of _ q]) simp

lemma counted_live:
  "counted s n \<Longrightarrow> q \<noteq> nullptr \<Longrightarrow> objs s q = Some c \<Longrightarrow> unat (counter c) = n q"
  unfolding counted_def by (drule spec [of _ q]) simp

lemma counted_cong:
  assumes eq: "\<And>q. q \<noteq> nullptr \<Longrightarrow> n q = n' q" and cnt: "counted s n"
  shows "counted s n'"
proof (rule countedI)
  fix q :: ptr
  assume q: "q \<noteq> nullptr" "objs s q = None"
  then show "n' q = 0" using counted_dead [OF cnt q] eq [of q] by simp
next
  fix q :: ptr and c
  assume q: "q \<noteq> nullptr" "objs s q = Some c"
  then show "unat (counter c) = n' q" using counted_live [OF cnt q] eq [of q] by simp
qed

lemma unat_succ: "(x :: 32 word) \<noteq> - 1 \<Longrightarrow> unat (x + 1) = unat x + 1"
proof -
  assume "x \<noteq> - 1"
  then have "1 + x \<noteq> 0" using max_word_wrap [of x] by (auto simp: add.commute)
  then show ?thesis using unatSuc [of x] by (simp add: add.commute)
qed

lemma unat_pred_zero: "((x :: 32 word) - 1 = 0) = (unat x = 1)"
proof -
  have "(unat x = 1) = (x = 1)"
    by (metis unat_1 word_unat_eq_iff)
  then show ?thesis by simp
qed

lemma ledger_add:
  "increments p (es @ [AddRef q v]) = increments p es + (if q = p then 1 else 0)"
  "decrements p (es @ [AddRef q v]) = decrements p es"
  "deletions p (es @ [AddRef q v]) = deletions p es"
  by (simp_all add: increments_def decrements_def deletions_def)

lemma ledger_release:
  "increments p (es @ [Release q v]) = increments p es"
  "decrements p (es @ [Release q v]) = decrements p es + (if q = p then 1 else 0)"
  "deletions p (es @ [Release q v]) = deletions p es"
  by (simp_all add: increments_def decrements_def deletions_def)

lemma ledger_delete:
  "increments p (es @ [Release q v, Delete q]) = increments p es"
  "decrements p (es @ [Release q v, Delete q]) = decrements p es + (if q = p then 1 else 0)"
  "deletions p (es @ [Release q v, Delete q]) = deletions p es + (if q = p then 1 else 0)"
  by (simp_all add: increments_def decrements_def deletions_def)

lemma acquire_counted:
  assumes cnt: "counted s n" and led: "ledger s p"
    and ok: "a = nullptr \<or> (\<exists>c. objs s a = Some c \<and> counter c \<noteq> - 1)"
  shows "\<exists>s'. acquire a s = Some s' \<and> counted s' (receive a n) \<and> ledger s' p
           \<and> (\<forall>q. (objs s' q = None) = (objs s q = None))"
proof (cases "a = nullptr")
  case True
  then show ?thesis using cnt led by (simp add: acquire_def receive_def)
next
  case False
  with ok obtain c where c: "objs s a = Some c" "counter c \<noteq> - 1" by blast
  let ?s' = "s\<lparr>objs := (objs s)(a \<mapsto> c\<lparr>counter := counter c + 1\<rparr>),
               trace := trace s @ [AddRef a (counter c + 1)]\<rparr>"
  have run: "acquire a s = Some ?s'"
    using False c by (simp add: acquire_def intrusive_ptr_add_ref_def Let_def)
  have "counted ?s' (receive a n)"
  proof (rule countedI)
    fix q :: ptr
    assume "q \<noteq> nullptr" "objs ?s' q = None"
    then show "receive a n q = 0"
      using counted_dead [OF cnt, of q] by (auto simp: receive_def split: if_splits)
  next
    fix q :: ptr and c'
    assume "q \<noteq> nullptr" "objs ?s' q = Some c'"
    then show "unat (counter c') = receive a n q"
      using counted_live [OF cnt, of q] c False
      by (auto simp: receive_def unat_succ split: if_splits)
  qed
  moreover have "ledger ?s' p"
    using led c unfolding ledger_def
    by (auto simp: ledger_add unat_succ)
  moreover have "\<forall>q. (objs ?s' q = None) = (objs s q = None)"
    using c by simp
  ultimately show ?thesis using run by blast
qed

lemma relinquish_counted:
  assumes cnt: "counted s n" and led: "ledger s p"
    and ok: "d = nullptr \<or> 0 < n d"
  shows "\<exists>s'. relinquish d s = Some s' \<and> counted s' (hand_over d False n) \<and> ledger s' p
           \<and> (\<forall>q. (objs s' q = None) = (objs s q = None \<or> (q = d \<and> d \<noteq> nullptr \<and> n d = 1)))"
proof (cases "d = nullptr")
  case True
  then show ?thesis using cnt led by (simp add: relinquish_def hand_over_def)
next
  case False
  with ok have pos: "0 < n d" by simp
  from cnt False pos obtain c where c: "objs s d = Some c" "unat (counter c) = n d"
    using counted_dead [of s n d] counted_live [of s n d] by (cases "objs s d") auto
  have nz: "counter c \<noteq> 0" using c pos by (auto simp: unat_gt_0 [symmetric])
  have pred: "unat (counter c - 1) = n d - 1"
    using unat_minus_one [OF nz] c by simp
  show ?thesis
  proof (cases "counter c - 1 = 0")
    case True
    then have one: "n d = 1" unfolding unat_pred_zero using c by simp
    let ?s' = "s\<lparr>objs := (objs s)(d := None),
                 trace := trace s @ [Release d (counter c - 1), Delete d]\<rparr>"
    have run: "relinquish d s = Some ?s'"
      using False c True by (simp add: relinquish_def intrusive_ptr_release_def Let_def)
    have "counted ?s' (hand_over d False n)"
    proof (rule countedI)
      fix q :: ptr
      assume "q \<noteq> nullptr" "objs ?s' q = None"
      then show "hand_over d False n q = 0"
        using counted_dead [OF cnt, of q] one by (auto simp: hand_over_def split: if_splits)
    next
      fix q :: ptr and c'
      assume "q \<noteq> nullptr" "objs ?s' q = Some c'"
      then show "unat (counter c') = hand_over d False n q"
        using counted_live [OF cnt, of q] False
        by (auto simp: hand_over_def split: if_splits)
    qed
    moreover have "ledger ?s' p"
      using led c one unfolding ledger_def by (auto simp: ledger_delete)
    moreover have "\<forall>q. (objs ?s' q = None) = (objs s q = None \<or> (q = d \<and> d \<noteq> nullptr \<and> n d = 1))"
      using c False one by auto
    ultimately show ?thesis using run by blast
  next
    case nonzero: False
    then have more: "n d \<noteq> 1" unfolding unat_pred_zero using c by simp
    let ?s' = "s\<lparr>objs := (objs s)(d \<mapsto> c\<lparr>counter := counter c - 1\<rparr>),
                 trace := trace s @ [Release d (counter c - 1)]\<rparr>"
    have run: "relinquish d s = Some ?s'"
      using False c nonzero by (simp add: relinquish_def intrusive_ptr_release_def Let_def)
    have "counted ?s' (hand_over d False n)"
    proof (rule countedI)
      fix q :: ptr
      assume "q \<noteq> nullptr" "objs ?s' q = None"
      then show "hand_over d False n q = 0"
        using counted_dead [OF cnt, of q] by (auto simp: hand_over_def split: if_splits)
    next
      fix q :: ptr and c'
      assume "q \<noteq> nullptr" "objs ?s' q = Some c'"
      then show "unat (counter c') = hand_over d False n q"
        using counted_live [OF cnt, of q] False pred
        by (auto simp: hand_over_def split: if_splits)
    qed
    moreover have "ledger ?s' p"
      using led c pos pred unfolding ledger_def by (auto simp: ledger_release)
    moreover have "\<forall>q. (objs ?s' q = None) = (objs s q = None \<or> (q = d \<and> d \<noteq> nullptr \<and> n d = 1))"
      using c more by auto
    ultimately show ?thesis using run by blast
  qed
qed


subsection \<open>An increment followed by a decrement\<close>

lemma acquire_relinquish:
  assumes cnt: "counted s n" and led: "ledger s p" and p: "p \<noteq> nullptr"
    and a: "a = nullptr \<or> (\<exists>c. objs s a = Some c \<and> counter c \<noteq> - 1)"
    and d: "d = nullptr \<or> 0 < n d"
  shows "\<exists>s'. acquire a s \<bind> relinquish d = Some s'
           \<and> counted s' (hand_over d False (receive a n)) \<and> ledger s' p
           \<and> ((objs s p \<noteq> None \<and> objs s' p = None)
                 = (0 < n p \<and> hand_over d False (receive a n) p = 0))
           \<and> (objs s p = None \<longrightarrow> objs s' p = None)"
proof -
  from acquire_counted [OF cnt led a] obtain s1 where
    s1: "acquire a s = Some s1" "counted s1 (receive a n)" "ledger s1 p"
      "\<forall>q. (objs s1 q = None) = (objs s q = None)"
    by blast
  have d1: "d = nullptr \<or> 0 < receive a n d"
    using d by (auto simp: receive_def)
  from relinquish_counted [OF s1(2) s1(3) d1] obtain s2 where
    s2: "relinquish d s1 = Some s2" "counted s2 (hand_over d False (receive a n))" "ledger s2 p"
      "\<forall>q. (objs s2 q = None)
           = (objs s1 q = None \<or> (q = d \<and> d \<noteq> nullptr \<and> receive a n d = 1))"
    by blast
  have dead: "objs s p = None \<longrightarrow> n p = 0"
    using counted_dead [OF cnt p] by blast
  have e1: "(objs s1 p = None) = (objs s p = None)"
    using s1(4) by (rule spec)
  have e2: "(objs s2 p = None) = (objs s p = None \<or> (p = d \<and> receive a n p = 1))"
    using spec [OF s2(4), of p] e1 p by auto
  have grow: "n p \<le> receive a n p"
    by (simp add: receive_def)
  have gone: "(objs s p \<noteq> None \<and> objs s2 p = None)
          = (0 < n p \<and> hand_over d False (receive a n) p = 0)"
  proof (cases "p = d")
    case True
    then have pos: "0 < n p" using d p by simp
    have "hand_over d False (receive a n) p = receive a n p - 1"
      using True p by (simp add: hand_over_def)
    then show ?thesis
      using True pos grow dead e2 by auto
  next
    case False
    then have "hand_over d False (receive a n) p = receive a n p"
      by (simp add: hand_over_def)
    then show ?thesis
      using False grow e2 by auto
  qed
  have stays: "objs s p = None \<longrightarrow> objs s2 p = None"
    using e2 by simp
  show ?thesis
    using s1(1) s2(1) s2(2) s2(3) gone stays by simp
qed

subsection \<open>The operations of the handle as an increment and a decrement\<close>

lemma ctor_raw_acquire:
  "ctor_raw p b s = map_option (Pair \<lparr>m_pointer = p\<rparr>) (if b then acquire p s else Some s)"
  by (simp add: ctor_raw_def acquire_def bind_Some_map)

lemma ctor_copy_acquire:
  "ctor_copy y s = map_option (Pair y) (acquire (m_pointer y) s)"
  "ctor_copy_conv y s = map_option (Pair y) (acquire (m_pointer y) s)"
  by (simp_all add: ctor_copy_def ctor_copy_conv_def acquire_def bind_Some_map handle_simps)

lemma dtor_relinquish: "dtor x s = relinquish (m_pointer x) s"
  by (simp add: dtor_def relinquish_def)

lemma bind_map_option: "map_option f x \<bind> g = x \<bind> (\<lambda>y. g (f y))"
  by (cases x) simp_all

lemma map_option_bind: "x \<bind> (\<lambda>y. map_option f (g y)) = map_option f (x \<bind> g)"
  by (cases x) simp_all

lemma assign_copy_conv_eq:
  "assign_copy_conv x y s
     = map_option (Pair y) (acquire (m_pointer y) s \<bind> relinquish (m_pointer x))"
  by (simp add: assign_copy_conv_def ctor_copy_acquire bind_map_option handle_simps
      dtor_relinquish bind_Some_map map_option_bind)

lemma assign_copy_eq:
  "assign_copy x y s =
     (if m_pointer y \<noteq> m_pointer x
      then map_option (Pair y) (acquire (m_pointer y) s \<bind> relinquish (m_pointer x))
      else Some (x, s))"
  by (simp add: assign_copy_def ctor_copy_acquire bind_map_option handle_simps
      dtor_relinquish bind_Some_map map_option_bind)

lemma reset_ptr_flag_eq:
  "reset_ptr_flag x p b s
     = map_option (Pair \<lparr>m_pointer = p\<rparr>)
         ((if b then acquire p s else Some s) \<bind> relinquish (m_pointer x))"
  by (simp add: reset_ptr_flag_def ctor_raw_acquire bind_map_option handle_simps
      dtor_relinquish bind_Some_map map_option_bind)

lemma assign_raw_eq:
  "assign_raw x p s
     = map_option (Pair \<lparr>m_pointer = p\<rparr>) (acquire p s \<bind> relinquish (m_pointer x))"
  "reset_ptr x p s
     = map_option (Pair \<lparr>m_pointer = p\<rparr>) (acquire p s \<bind> relinquish (m_pointer x))"
  by (simp_all add: assign_raw_def reset_ptr_def ctor_raw_acquire bind_map_option handle_simps
      dtor_relinquish bind_Some_map map_option_bind)

lemma assign_move_conv_eq:
  "assign_move_conv x y s
     = map_option (Pair (y, \<lparr>m_pointer = nullptr\<rparr>)) (relinquish (m_pointer x) s)"
  by (simp add: assign_move_conv_def handle_simps dtor_relinquish bind_Some_map map_option_bind)

lemma assign_move_eq:
  "assign_move x y s =
     (if m_pointer y \<noteq> m_pointer x
      then map_option (Pair (y, \<lparr>m_pointer = nullptr\<rparr>)) (relinquish (m_pointer x) s)
      else Some ((x, y), s))"
  by (simp add: assign_move_def handle_simps dtor_relinquish bind_Some_map map_option_bind)

lemma reset_eq:
  "reset x s = map_option (Pair \<lparr>m_pointer = nullptr\<rparr>) (relinquish (m_pointer x) s)"
  by (simp add: reset_def relinquish_def handle_simps bind_Some_map handle_eq_iff)

lemma acquire_null [simp]: "acquire nullptr s = Some s"
  by (simp add: acquire_def)

lemma relinquish_null [simp]: "relinquish nullptr s = Some s"
  by (simp add: relinquish_def)

subsection \<open>One operation of a program\<close>

lemma held_owned:
  assumes "world_inv w" and "handles w h = Some y"
  shows "0 < owners w (m_pointer y)"
  using assms holders_pos [of "handles w" h y] by (simp add: world_inv_def owners_def)

lemma owned_alive:
  assumes "world_inv w" and "q \<noteq> nullptr" and "0 < owners w q"
  shows "alive w q"
  using assms counted_dead [of "heap_of w" "owners w" q]
  by (auto simp: world_inv_def alive_def)

lemma step_glue:
  assumes inv: "world_inv w" and led: "ledger (heap_of w) p" and p: "p \<noteq> nullptr"
    and a: "a = nullptr \<or> (alive w a \<and> room w a)"
    and d: "d = nullptr \<or> 0 < owners w d"
    and st: "\<And>s'. acquire a (heap_of w) \<bind> relinquish d = Some s' \<Longrightarrow>
               step act w = Some (w\<lparr>heap_of := s', handles := H', owed := O'\<rparr>)"
    and fin: "finite (dom H')"
    and cnt: "\<And>q. q \<noteq> nullptr \<Longrightarrow>
               holders H' q + O' q = hand_over d False (receive a (owners w)) q"
  shows "sound_step act w p"
proof -
  have c0: "counted (heap_of w) (owners w)"
    using inv by (simp add: world_inv_def)
  have a': "a = nullptr \<or> (\<exists>c. objs (heap_of w) a = Some c \<and> counter c \<noteq> - 1)"
    using a by (auto simp: alive_def room_def)
  from acquire_relinquish [OF c0 led p a' d] obtain s' where
    s': "acquire a (heap_of w) \<bind> relinquish d = Some s'"
      "counted s' (hand_over d False (receive a (owners w)))" "ledger s' p"
      "(objs (heap_of w) p \<noteq> None \<and> objs s' p = None)
         = (0 < owners w p \<and> hand_over d False (receive a (owners w)) p = 0)"
      "objs (heap_of w) p = None \<longrightarrow> objs s' p = None"
    by (elim exE conjE) (rule that)
  let ?w' = "w\<lparr>heap_of := s', handles := H', owed := O'\<rparr>"
  have own: "owners ?w' q = hand_over d False (receive a (owners w)) q" if "q \<noteq> nullptr" for q
    using cnt [OF that] by (simp add: owners_def)
  have "counted s' (owners ?w')"
    by (rule counted_cong [OF _ s'(2)]) (simp add: own)
  then have "world_inv ?w'"
    using fin by (simp add: world_inv_def)
  moreover have "(alive w p \<and> \<not> alive ?w' p) = (0 < owners w p \<and> owners ?w' p = 0)"
    using s'(4) own [OF p] by (simp add: alive_def)
  moreover have "alive ?w' p \<longrightarrow> alive w p"
    using s'(5) by (auto simp: alive_def)
  ultimately show ?thesis
    unfolding sound_step_def using st [OF s'(1)] s'(3) by auto
qed

lemma bind_relinquish_null [simp]: "x \<bind> relinquish nullptr = x"
  by (cases x) simp_all

lemma raw_ok_acquire:
  "raw_ok w q True \<Longrightarrow> q = nullptr \<or> (alive w q \<and> room w q)"
  by (simp add: raw_ok_def)

lemma raw_ok_owed:
  "raw_ok w q False \<Longrightarrow> q = nullptr \<or> 0 < owed w q"
  by (auto simp: raw_ok_def)

lemma held_acquire:
  assumes "world_inv w" and "handles w r = Some y" and "room w (m_pointer y)"
  shows "m_pointer y = nullptr \<or> (alive w (m_pointer y) \<and> room w (m_pointer y))"
  using assms held_owned [OF assms(1,2)] owned_alive [OF assms(1), of "m_pointer y"] by blast

lemma held_relinquish:
  assumes "world_inv w" and "handles w t = Some x"
  shows "m_pointer x = nullptr \<or> 0 < owners w (m_pointer x)"
  using held_owned [OF assms] by simp

lemma holders_replace2:
  assumes fin: "finite (dom H)" and r: "H r = Some y" and t: "H t = Some x" and ne: "t \<noteq> r"
  shows "holders (H(r \<mapsto> y', t \<mapsto> x')) q
           + (if m_pointer x = q then 1 else 0) + (if m_pointer y = q then 1 else 0)
         = holders H q
           + (if m_pointer x' = q then 1 else 0) + (if m_pointer y' = q then 1 else 0)"
proof -
  have fin1: "finite (dom (H(r \<mapsto> y')))" using fin by simp
  have t1: "(H(r \<mapsto> y')) t = Some x" using t ne by simp
  show ?thesis
    using holders_replace [of H r y y' q, OF fin r]
      holders_replace [of "H(r \<mapsto> y')" t x x' q, OF fin1 t1]
    by simp
qed

lemma holders_move_fresh:
  assumes fin: "finite (dom H)" and r: "H r = Some y" and h: "H h = None"
  shows "holders (H(r \<mapsto> y', h \<mapsto> x')) q + (if m_pointer y = q then 1 else 0)
         = holders H q
           + (if m_pointer x' = q then 1 else 0) + (if m_pointer y' = q then 1 else 0)"
proof -
  have ne: "h \<noteq> r" using r h by auto
  have fin1: "finite (dom (H(r \<mapsto> y')))" using fin by simp
  have h1: "(H(r \<mapsto> y')) h = None" using h ne by simp
  show ?thesis
    using holders_replace [of H r y y' q, OF fin r]
      holders_fresh [of "H(r \<mapsto> y')" h x' q, OF fin1 h1]
    by simp
qed

lemma step_construct:
  assumes inv: "world_inv w" and led: "ledger (heap_of w) p" and p: "p \<noteq> nullptr"
    and ob: "obeys (Construct h q b) w"
  shows "sound_step (Construct h q b) w p"
proof -
  have fin: "finite (dom (handles w))" using inv by (simp add: world_inv_def)
  have fresh: "handles w h = None" and raw: "raw_ok w q b" using ob by simp_all
  show ?thesis
  proof (rule step_glue [OF inv led p, where a = "if b then q else nullptr" and d = nullptr
        and H' = "(handles w)(h \<mapsto> \<lparr>m_pointer = q\<rparr>)" and O' = "hand_over q b (owed w)"])
    show "(if b then q else nullptr) = nullptr
            \<or> (alive w (if b then q else nullptr) \<and> room w (if b then q else nullptr))"
      using raw raw_ok_acquire [of w q] by (cases b) simp_all
    show "nullptr = nullptr \<or> 0 < owners w nullptr" by simp
    show "finite (dom ((handles w)(h \<mapsto> \<lparr>m_pointer = q\<rparr>)))" using fin by simp
  next
    fix s'
    assume "acquire (if b then q else nullptr) (heap_of w) \<bind> relinquish nullptr = Some s'"
    then show "step (Construct h q b) w
        = Some (w\<lparr>heap_of := s', handles := (handles w)(h \<mapsto> \<lparr>m_pointer = q\<rparr>),
                  owed := hand_over q b (owed w)\<rparr>)"
      using fresh by (cases b) (simp_all add: ctor_raw_acquire)
  next
    fix q' :: ptr
    assume "q' \<noteq> nullptr"
    then show "holders ((handles w)(h \<mapsto> \<lparr>m_pointer = q\<rparr>)) q' + hand_over q b (owed w) q'
        = hand_over nullptr False (receive (if b then q else nullptr) (owners w)) q'"
      using holders_fresh [OF fin fresh, of "\<lparr>m_pointer = q\<rparr>" q'] raw raw_ok_owed [of w q]
      by (cases b) (auto simp: hand_over_def receive_def owners_def)
  qed
qed

lemma step_default_construct:
  assumes inv: "world_inv w" and led: "ledger (heap_of w) p" and p: "p \<noteq> nullptr"
    and ob: "obeys (DefaultConstruct h) w"
  shows "sound_step (DefaultConstruct h) w p"
proof -
  have fin: "finite (dom (handles w))" using inv by (simp add: world_inv_def)
  have fresh: "handles w h = None" using ob by simp
  show ?thesis
  proof (rule step_glue [OF inv led p, where a = nullptr and d = nullptr
        and H' = "(handles w)(h \<mapsto> ctor_default)" and O' = "owed w"])
    show "nullptr = nullptr \<or> (alive w nullptr \<and> room w nullptr)" by simp
    show "nullptr = nullptr \<or> 0 < owners w nullptr" by simp
    show "finite (dom ((handles w)(h \<mapsto> ctor_default)))" using fin by simp
  next
    fix s'
    assume "acquire nullptr (heap_of w) \<bind> relinquish nullptr = Some s'"
    then show "step (DefaultConstruct h) w
        = Some (w\<lparr>heap_of := s', handles := (handles w)(h \<mapsto> ctor_default), owed := owed w\<rparr>)"
      using fresh by simp
  next
    fix q' :: ptr
    assume "q' \<noteq> nullptr"
    then show "holders ((handles w)(h \<mapsto> ctor_default)) q' + owed w q'
        = hand_over nullptr False (receive nullptr (owners w)) q'"
      using holders_fresh [OF fin fresh, of ctor_default q']
      by (auto simp: hand_over_def receive_def owners_def ctor_default_def)
  qed
qed

lemma step_copy_construct:
  assumes inv: "world_inv w" and led: "ledger (heap_of w) p" and p: "p \<noteq> nullptr"
    and fresh: "handles w h = None" and src: "handles w r = Some y"
    and rm: "room w (m_pointer y)"
    and act: "act = CopyConstruct h r \<or> act = CopyConstructConv h r"
  shows "sound_step act w p"
proof -
  have fin: "finite (dom (handles w))" using inv by (simp add: world_inv_def)
  show ?thesis
  proof (rule step_glue [OF inv led p, where a = "m_pointer y" and d = nullptr
        and H' = "(handles w)(h \<mapsto> y)" and O' = "owed w"])
    show "m_pointer y = nullptr \<or> (alive w (m_pointer y) \<and> room w (m_pointer y))"
      using held_acquire [OF inv src rm] .
    show "nullptr = nullptr \<or> 0 < owners w nullptr" by simp
    show "finite (dom ((handles w)(h \<mapsto> y)))" using fin by simp
  next
    fix s'
    assume "acquire (m_pointer y) (heap_of w) \<bind> relinquish nullptr = Some s'"
    then show "step act w
        = Some (w\<lparr>heap_of := s', handles := (handles w)(h \<mapsto> y), owed := owed w\<rparr>)"
      using fresh src act by (auto simp: ctor_copy_acquire)
  next
    fix q' :: ptr
    assume "q' \<noteq> nullptr"
    then show "holders ((handles w)(h \<mapsto> y)) q' + owed w q'
        = hand_over nullptr False (receive (m_pointer y) (owners w)) q'"
      using holders_fresh [OF fin fresh, of y q']
      by (auto simp: hand_over_def receive_def owners_def)
  qed
qed

lemma step_move_construct:
  assumes inv: "world_inv w" and led: "ledger (heap_of w) p" and p: "p \<noteq> nullptr"
    and fresh: "handles w h = None" and src: "handles w r = Some y"
    and act: "act = MoveConstruct h r \<or> act = MoveConstructConv h r"
  shows "sound_step act w p"
proof -
  have fin: "finite (dom (handles w))" using inv by (simp add: world_inv_def)
  show ?thesis
  proof (rule step_glue [OF inv led p, where a = nullptr and d = nullptr
        and H' = "(handles w)(r \<mapsto> \<lparr>m_pointer = nullptr\<rparr>, h \<mapsto> y)" and O' = "owed w"])
    show "nullptr = nullptr \<or> (alive w nullptr \<and> room w nullptr)" by simp
    show "nullptr = nullptr \<or> 0 < owners w nullptr" by simp
    show "finite (dom ((handles w)(r \<mapsto> \<lparr>m_pointer = nullptr\<rparr>, h \<mapsto> y)))" using fin by simp
  next
    fix s'
    assume "acquire nullptr (heap_of w) \<bind> relinquish nullptr = Some s'"
    then show "step act w
        = Some (w\<lparr>heap_of := s', handles := (handles w)(r \<mapsto> \<lparr>m_pointer = nullptr\<rparr>, h \<mapsto> y),
                  owed := owed w\<rparr>)"
      using fresh src act by (auto simp: handle_simps)
  next
    fix q' :: ptr
    assume "q' \<noteq> nullptr"
    then show "holders ((handles w)(r \<mapsto> \<lparr>m_pointer = nullptr\<rparr>, h \<mapsto> y)) q' + owed w q'
        = hand_over nullptr False (receive nullptr (owners w)) q'"
      using holders_move_fresh [OF fin src fresh, of "\<lparr>m_pointer = nullptr\<rparr>" y q']
      by (auto simp: hand_over_def receive_def owners_def split: if_splits)
  qed
qed

lemma step_destroy:
  assumes inv: "world_inv w" and led: "ledger (heap_of w) p" and p: "p \<noteq> nullptr"
    and tgt: "handles w h = Some x"
  shows "sound_step (Destroy h) w p"
proof -
  have fin: "finite (dom (handles w))" using inv by (simp add: world_inv_def)
  show ?thesis
  proof (rule step_glue [OF inv led p, where a = nullptr and d = "m_pointer x"
        and H' = "(handles w)(h := None)" and O' = "owed w"])
    show "nullptr = nullptr \<or> (alive w nullptr \<and> room w nullptr)" by simp
    show "m_pointer x = nullptr \<or> 0 < owners w (m_pointer x)"
      using held_relinquish [OF inv tgt] .
    show "finite (dom ((handles w)(h := None)))" using fin by simp
  next
    fix s'
    assume "acquire nullptr (heap_of w) \<bind> relinquish (m_pointer x) = Some s'"
    then show "step (Destroy h) w
        = Some (w\<lparr>heap_of := s', handles := (handles w)(h := None), owed := owed w\<rparr>)"
      using tgt by (simp add: dtor_relinquish)
  next
    fix q' :: ptr
    assume "q' \<noteq> nullptr"
    then show "holders ((handles w)(h := None)) q' + owed w q'
        = hand_over (m_pointer x) False (receive nullptr (owners w)) q'"
      using holders_remove [OF fin tgt, of q']
      by (auto simp: hand_over_def receive_def owners_def split: if_splits)
  qed
qed

text \<open>Replacing the content of one handle: an increment on the new pointer, a decrement on the old.\<close>

lemma step_replace:
  assumes inv: "world_inv w" and led: "ledger (heap_of w) p" and p: "p \<noteq> nullptr"
    and tgt: "handles w t = Some x"
    and a: "a = nullptr \<or> (alive w a \<and> room w a)"
    and gift: "g \<noteq> nullptr \<Longrightarrow> 0 < owed w g"
    and new: "n = (if g = nullptr then a else g)" and one: "a = nullptr \<or> g = nullptr"
    and st: "\<And>s'. acquire a (heap_of w) \<bind> relinquish (m_pointer x) = Some s' \<Longrightarrow>
               step act w = Some (w\<lparr>heap_of := s', handles := (handles w)(t \<mapsto> \<lparr>m_pointer = n\<rparr>),
                                   owed := hand_over g False (owed w)\<rparr>)"
  shows "sound_step act w p"
proof -
  have fin: "finite (dom (handles w))" using inv by (simp add: world_inv_def)
  show ?thesis
  proof (rule step_glue [OF inv led p a _ st, where d = "m_pointer x"])
    show "m_pointer x = nullptr \<or> 0 < owners w (m_pointer x)"
      using held_relinquish [OF inv tgt] .
    show "finite (dom ((handles w)(t \<mapsto> \<lparr>m_pointer = n\<rparr>)))" using fin by simp
  next
    fix q' :: ptr
    assume "q' \<noteq> nullptr"
    then show "holders ((handles w)(t \<mapsto> \<lparr>m_pointer = n\<rparr>)) q' + hand_over g False (owed w) q'
        = hand_over (m_pointer x) False (receive a (owners w)) q'"
      using holders_replace [OF fin tgt, of "\<lparr>m_pointer = n\<rparr>" q'] gift new one
      by (auto simp: hand_over_def receive_def owners_def split: if_splits)
  qed simp
qed


lemma receive_null [simp]: "receive nullptr f = f"
  by (simp add: receive_def)

lemma hand_over_null [simp]: "hand_over nullptr b f = f" "hand_over q True f = f"
  by (simp_all add: hand_over_def)

lemma step_assign_raw:
  assumes inv: "world_inv w" and led: "ledger (heap_of w) p" and p: "p \<noteq> nullptr"
    and tgt: "handles w t = Some x" and raw: "raw_ok w q True"
    and act: "act = AssignRaw t q \<or> act = ResetPtr t q \<or> act = ResetPtrFlag t q True"
  shows "sound_step act w p"
proof (rule step_replace [OF inv led p tgt, where a = q and g = nullptr and n = q])
  show "q = nullptr \<or> (alive w q \<and> room w q)" using raw by (rule raw_ok_acquire)
next
  fix s'
  assume "acquire q (heap_of w) \<bind> relinquish (m_pointer x) = Some s'"
  then show "step act w = Some (w\<lparr>heap_of := s', handles := (handles w)(t \<mapsto> \<lparr>m_pointer = q\<rparr>),
                                   owed := hand_over nullptr False (owed w)\<rparr>)"
    using tgt act by (auto simp: assign_raw_eq reset_ptr_flag_eq)
qed simp_all

lemma step_reset_adopt:
  assumes inv: "world_inv w" and led: "ledger (heap_of w) p" and p: "p \<noteq> nullptr"
    and tgt: "handles w t = Some x" and raw: "raw_ok w q False"
  shows "sound_step (ResetPtrFlag t q False) w p"
proof (rule step_replace [OF inv led p tgt, where a = nullptr and g = q and n = q])
  show "q \<noteq> nullptr \<Longrightarrow> 0 < owed w q" using raw_ok_owed [OF raw] by simp
next
  fix s'
  assume "acquire nullptr (heap_of w) \<bind> relinquish (m_pointer x) = Some s'"
  then show "step (ResetPtrFlag t q False) w
      = Some (w\<lparr>heap_of := s', handles := (handles w)(t \<mapsto> \<lparr>m_pointer = q\<rparr>),
                owed := hand_over q False (owed w)\<rparr>)"
    using tgt by (simp add: reset_ptr_flag_eq)
qed simp_all

lemma step_reset:
  assumes inv: "world_inv w" and led: "ledger (heap_of w) p" and p: "p \<noteq> nullptr"
    and tgt: "handles w t = Some x"
  shows "sound_step (Reset t) w p"
proof (rule step_replace [OF inv led p tgt, where a = nullptr and g = nullptr and n = nullptr])
  fix s'
  assume "acquire nullptr (heap_of w) \<bind> relinquish (m_pointer x) = Some s'"
  then show "step (Reset t) w
      = Some (w\<lparr>heap_of := s', handles := (handles w)(t \<mapsto> \<lparr>m_pointer = nullptr\<rparr>),
                owed := hand_over nullptr False (owed w)\<rparr>)"
    using tgt by (simp add: reset_eq)
qed simp_all

lemma step_unchanged:
  assumes inv: "world_inv w" and led: "ledger (heap_of w) p" and p: "p \<noteq> nullptr"
    and st: "step act w = Some w"
  shows "sound_step act w p"
  using assms by (auto simp: sound_step_def)

lemma step_assign_copy:
  assumes inv: "world_inv w" and led: "ledger (heap_of w) p" and p: "p \<noteq> nullptr"
    and tgt: "handles w t = Some x" and src: "handles w r = Some y"
    and rm: "room w (m_pointer y)"
    and act: "act = AssignCopy t r \<or> (act = AssignCopyConv t r \<and> t \<noteq> r)"
  shows "sound_step act w p"
proof (cases "act = AssignCopy t r \<and> m_pointer y = m_pointer x")
  case True
  then have "y = x" by (simp add: handle_eq_iff)
  then have "step act w = Some w"
    using True tgt src by (simp add: assign_copy_eq map_upd_triv)
  then show ?thesis by (rule step_unchanged [OF inv led p])
next
  case False
  show ?thesis
  proof (rule step_replace [OF inv led p tgt, where a = "m_pointer y" and g = nullptr
        and n = "m_pointer y"])
    show "m_pointer y = nullptr \<or> (alive w (m_pointer y) \<and> room w (m_pointer y))"
      using held_acquire [OF inv src rm] .
  next
    fix s'
    assume "acquire (m_pointer y) (heap_of w) \<bind> relinquish (m_pointer x) = Some s'"
    then show "step act w
        = Some (w\<lparr>heap_of := s', handles := (handles w)(t \<mapsto> \<lparr>m_pointer = m_pointer y\<rparr>),
                  owed := hand_over nullptr False (owed w)\<rparr>)"
      using tgt src act False
      by (auto simp: assign_copy_eq assign_copy_conv_eq handle_eta)
  qed simp_all
qed

lemma step_assign_move:
  assumes inv: "world_inv w" and led: "ledger (heap_of w) p" and p: "p \<noteq> nullptr"
    and tgt: "handles w t = Some x" and src: "handles w r = Some y"
    and act: "act = AssignMove t r \<or> (act = AssignMoveConv t r \<and> t \<noteq> r)"
  shows "sound_step act w p"
proof (cases "act = AssignMove t r \<and> m_pointer y = m_pointer x")
  case True
  then have "y = x" by (simp add: handle_eq_iff)
  then have "step act w = Some w"
    using True tgt src by (simp add: assign_move_eq map_upd_triv)
  then show ?thesis by (rule step_unchanged [OF inv led p])
next
  case False
  have fin: "finite (dom (handles w))" using inv by (simp add: world_inv_def)
  have ne: "t \<noteq> r" using False act tgt src by auto
  show ?thesis
  proof (rule step_glue [OF inv led p, where a = nullptr and d = "m_pointer x"
        and H' = "(handles w)(r \<mapsto> \<lparr>m_pointer = nullptr\<rparr>, t \<mapsto> y)" and O' = "owed w"])
    show "nullptr = nullptr \<or> (alive w nullptr \<and> room w nullptr)" by simp
    show "m_pointer x = nullptr \<or> 0 < owners w (m_pointer x)"
      using held_relinquish [OF inv tgt] .
    show "finite (dom ((handles w)(r \<mapsto> \<lparr>m_pointer = nullptr\<rparr>, t \<mapsto> y)))" using fin by simp
  next
    fix s'
    assume "acquire nullptr (heap_of w) \<bind> relinquish (m_pointer x) = Some s'"
    then show "step act w
        = Some (w\<lparr>heap_of := s', handles := (handles w)(r \<mapsto> \<lparr>m_pointer = nullptr\<rparr>, t \<mapsto> y),
                  owed := owed w\<rparr>)"
      using tgt src act False by (auto simp: assign_move_eq assign_move_conv_eq)
  next
    fix q' :: ptr
    assume "q' \<noteq> nullptr"
    then show "holders ((handles w)(r \<mapsto> \<lparr>m_pointer = nullptr\<rparr>, t \<mapsto> y)) q' + owed w q'
        = hand_over (m_pointer x) False (receive nullptr (owners w)) q'"
      using holders_replace2 [OF fin src tgt ne, of "\<lparr>m_pointer = nullptr\<rparr>" y q']
      by (auto simp: hand_over_def receive_def owners_def split: if_splits)
  qed
qed

lemma step_detach:
  assumes inv: "world_inv w" and led: "ledger (heap_of w) p" and p: "p \<noteq> nullptr"
    and tgt: "handles w h = Some x"
  shows "sound_step (Detach h) w p"
proof -
  have fin: "finite (dom (handles w))" using inv by (simp add: world_inv_def)
  show ?thesis
  proof (rule step_glue [OF inv led p, where a = nullptr and d = nullptr
        and H' = "(handles w)(h \<mapsto> \<lparr>m_pointer = nullptr\<rparr>)"
        and O' = "receive (m_pointer x) (owed w)"])
    show "nullptr = nullptr \<or> (alive w nullptr \<and> room w nullptr)" by simp
    show "nullptr = nullptr \<or> 0 < owners w nullptr" by simp
    show "finite (dom ((handles w)(h \<mapsto> \<lparr>m_pointer = nullptr\<rparr>)))" using fin by simp
  next
    fix s'
    assume "acquire nullptr (heap_of w) \<bind> relinquish nullptr = Some s'"
    then show "step (Detach h) w
        = Some (w\<lparr>heap_of := s', handles := (handles w)(h \<mapsto> \<lparr>m_pointer = nullptr\<rparr>),
                  owed := receive (m_pointer x) (owed w)\<rparr>)"
      using tgt by (simp add: handle_simps)
  next
    fix q' :: ptr
    assume "q' \<noteq> nullptr"
    then show "holders ((handles w)(h \<mapsto> \<lparr>m_pointer = nullptr\<rparr>)) q'
          + receive (m_pointer x) (owed w) q'
        = hand_over nullptr False (receive nullptr (owners w)) q'"
      using holders_replace [OF fin tgt, of "\<lparr>m_pointer = nullptr\<rparr>" q']
      by (auto simp: receive_def owners_def split: if_splits)
  qed
qed

lemma step_swap:
  assumes inv: "world_inv w" and led: "ledger (heap_of w) p" and p: "p \<noteq> nullptr"
    and ha: "handles w a = Some x" and hb: "handles w b = Some y"
  shows "sound_step (Swap a b) w p"
proof (cases "a = b")
  case True
  then have "y = x" using ha hb by simp
  then have "step (Swap a b) w = Some w"
    using True ha by (simp add: handle_simps map_upd_triv)
  then show ?thesis by (rule step_unchanged [OF inv led p])
next
  case False
  have fin: "finite (dom (handles w))" using inv by (simp add: world_inv_def)
  show ?thesis
  proof (rule step_glue [OF inv led p, where a = nullptr and d = nullptr
        and H' = "(handles w)(b \<mapsto> x, a \<mapsto> y)" and O' = "owed w"])
    show "nullptr = nullptr \<or> (alive w nullptr \<and> room w nullptr)" by simp
    show "nullptr = nullptr \<or> 0 < owners w nullptr" by simp
    show "finite (dom ((handles w)(b \<mapsto> x, a \<mapsto> y)))" using fin by simp
  next
    fix s'
    assume "acquire nullptr (heap_of w) \<bind> relinquish nullptr = Some s'"
    then show "step (Swap a b) w
        = Some (w\<lparr>heap_of := s', handles := (handles w)(b \<mapsto> x, a \<mapsto> y), owed := owed w\<rparr>)"
      using ha hb by (simp add: handle_simps)
  next
    fix q' :: ptr
    assume "q' \<noteq> nullptr"
    then show "holders ((handles w)(b \<mapsto> x, a \<mapsto> y)) q' + owed w q'
        = hand_over nullptr False (receive nullptr (owners w)) q'"
      using holders_replace2 [OF fin hb ha False, of x y q']
      by (auto simp: owners_def split: if_splits)
  qed
qed

lemma step_hook_add_ref:
  assumes inv: "world_inv w" and led: "ledger (heap_of w) p" and p: "p \<noteq> nullptr"
    and ob: "obeys (HookAddRef q) w"
  shows "sound_step (HookAddRef q) w p"
proof -
  have fin: "finite (dom (handles w))" using inv by (simp add: world_inv_def)
  have q: "q \<noteq> nullptr" "alive w q" "room w q" using ob by simp_all
  show ?thesis
  proof (rule step_glue [OF inv led p, where a = q and d = nullptr
        and H' = "handles w" and O' = "(owed w)(q := owed w q + 1)"])
    show "q = nullptr \<or> (alive w q \<and> room w q)" using q by simp
    show "nullptr = nullptr \<or> 0 < owners w nullptr" by simp
    show "finite (dom (handles w))" using fin .
  next
    fix s'
    assume "acquire q (heap_of w) \<bind> relinquish nullptr = Some s'"
    then show "step (HookAddRef q) w
        = Some (w\<lparr>heap_of := s', handles := handles w, owed := (owed w)(q := owed w q + 1)\<rparr>)"
      using q by (simp add: acquire_def)
  next
    fix q' :: ptr
    assume "q' \<noteq> nullptr"
    then show "holders (handles w) q' + ((owed w)(q := owed w q + 1)) q'
        = hand_over nullptr False (receive q (owners w)) q'"
      using q by (auto simp: receive_def owners_def)
  qed
qed

lemma step_hook_release:
  assumes inv: "world_inv w" and led: "ledger (heap_of w) p" and p: "p \<noteq> nullptr"
    and ob: "obeys (HookRelease q) w"
  shows "sound_step (HookRelease q) w p"
proof -
  have fin: "finite (dom (handles w))" using inv by (simp add: world_inv_def)
  have q: "q \<noteq> nullptr" "0 < owed w q" using ob by simp_all
  show ?thesis
  proof (rule step_glue [OF inv led p, where a = nullptr and d = q
        and H' = "handles w" and O' = "(owed w)(q := owed w q - 1)"])
    show "nullptr = nullptr \<or> (alive w nullptr \<and> room w nullptr)" by simp
    show "q = nullptr \<or> 0 < owners w q" using q by (simp add: owners_def)
    show "finite (dom (handles w))" using fin .
  next
    fix s'
    assume "acquire nullptr (heap_of w) \<bind> relinquish q = Some s'"
    then show "step (HookRelease q) w
        = Some (w\<lparr>heap_of := s', handles := handles w, owed := (owed w)(q := owed w q - 1)\<rparr>)"
      using q by (simp add: relinquish_def)
  next
    fix q' :: ptr
    assume "q' \<noteq> nullptr"
    then show "holders (handles w) q' + ((owed w)(q := owed w q - 1)) q'
        = hand_over q False (receive nullptr (owners w)) q'"
      using q by (auto simp: hand_over_def owners_def)
  qed
qed

lemma step_sound:
  assumes inv: "world_inv w" and led: "ledger (heap_of w) p" and p: "p \<noteq> nullptr"
    and ob: "obeys act w"
  shows "sound_step act w p"
proof (cases act)
  case (Construct h q b)
  then show ?thesis using step_construct [OF inv led p] ob by simp
next
  case (DefaultConstruct h)
  then show ?thesis using step_default_construct [OF inv led p] ob by simp
next
  case (CopyConstruct h r)
  then show ?thesis using step_copy_construct [OF inv led p, of h r _ act] ob
    by (auto split: option.splits)
next
  case (CopyConstructConv h r)
  then show ?thesis using step_copy_construct [OF inv led p, of h r _ act] ob
    by (auto split: option.splits)
next
  case (MoveConstruct h r)
  then show ?thesis using step_move_construct [OF inv led p, of h r _ act] ob by auto
next
  case (MoveConstructConv h r)
  then show ?thesis using step_move_construct [OF inv led p, of h r _ act] ob by auto
next
  case (Destroy h)
  then show ?thesis using step_destroy [OF inv led p, of h] ob by auto
next
  case (AssignCopy t r)
  then show ?thesis using step_assign_copy [OF inv led p, of t _ r _ act] ob
    by (auto split: option.splits)
next
  case (AssignCopyConv t r)
  then show ?thesis using step_assign_copy [OF inv led p, of t _ r _ act] ob
    by (auto split: option.splits)
next
  case (AssignRaw t q)
  then show ?thesis using step_assign_raw [OF inv led p, of t _ q act] ob by auto
next
  case (AssignMove t r)
  then show ?thesis using step_assign_move [OF inv led p, of t _ r _ act] ob by auto
next
  case (AssignMoveConv t r)
  then show ?thesis using step_assign_move [OF inv led p, of t _ r _ act] ob by auto
next
  case (Reset t)
  then show ?thesis using step_reset [OF inv led p, of t] ob by auto
next
  case (ResetPtr t q)
  then show ?thesis using step_assign_raw [OF inv led p, of t _ q act] ob by auto
next
  case (ResetPtrFlag t q b)
  then show ?thesis
    using step_assign_raw [OF inv led p, of t _ q act] step_reset_adopt [OF inv led p, of t _ q] ob
    by (cases b) auto
next
  case (Detach h)
  then show ?thesis using step_detach [OF inv led p, of h] ob by auto
next
  case (Swap a b)
  then show ?thesis using step_swap [OF inv led p, of a _ b] ob by auto
next
  case (HookAddRef q)
  then show ?thesis using step_hook_add_ref [OF inv led p] ob by simp
next
  case (HookRelease q)
  then show ?thesis using step_hook_release [OF inv led p] ob by simp
qed

section \<open>Programs: the life of a pointee\<close>

lemma pristine_ledger: "pristine w p \<Longrightarrow> ledger (heap_of w) p"
  by (simp add: pristine_def ledger_def increments_def decrements_def deletions_def
      ref_counter_default_def)

lemma run_append: "run (as @ bs) w = (case run as w of None \<Rightarrow> None | Some w' \<Rightarrow> run bs w')"
  by (induction as arbitrary: w) (auto split: option.splits)

lemma disciplined_append:
  "disciplined (as @ bs) w =
     (disciplined as w \<and> (case run as w of None \<Rightarrow> True | Some w' \<Rightarrow> disciplined bs w'))"
  by (induction as arbitrary: w) (auto split: option.splits)

lemma run_sound:
  assumes "world_inv w" and "ledger (heap_of w) p" and "p \<noteq> nullptr" and "disciplined as w"
  shows "\<exists>w'. run as w = Some w' \<and> world_inv w' \<and> ledger (heap_of w') p"
  using assms
proof (induction as arbitrary: w)
  case Nil
  then show ?case by simp
next
  case (Cons a as)
  from Cons.prems have ob: "obeys a w" by simp
  from step_sound [OF Cons.prems(1,2,3) ob] obtain w1 where
    w1: "step a w = Some w1" "world_inv w1" "ledger (heap_of w1) p"
    by (auto simp: sound_step_def)
  from Cons.prems(4) w1(1) have "disciplined as w1" by simp
  from Cons.IH [OF w1(2) w1(3) Cons.prems(3) this] show ?case
    using w1(1) by simp
qed

lemma fresh_world_inv: "world_inv fresh_world"
  by (simp add: world_inv_def fresh_world_def counted_def owners_def holders_def
      ref_counter_default_def)

lemma fresh_world_pristine: "pristine fresh_world 1"
  by (simp add: pristine_def fresh_world_def)

lemma scenario_disciplined:
  "disciplined ([Construct 0 1 True, CopyConstruct 1 0, Destroy 0, MoveConstruct 2 1] @ [Destroy 2])
     fresh_world"
  by (simp add: fresh_world_def ctor_raw_def ctor_copy_def dtor_def handle_simps
      intrusive_ptr_add_ref_def intrusive_ptr_release_def raw_ok_def room_def alive_def
      hand_over_def ref_counter_default_def)

text \<open>
  C1, as the claim states it, fails for a sequence that constructs a handle without the
  initial increment from a pointee nobody holds a reference to. In the world with one
  fresh pointee at address 1, \<^verbatim>\<open>{ intrusive_ptr<T> h(p, false); }\<close> constructs the handle
  0 and destroys it. Afterwards no handle exists, but the pointee is still on the heap,
  with the count 2^32 - 1: it was not deleted when its last handle disappeared, and one
  decrement and no increment were performed for it.
\<close>

theorem unbalanced_adoption_counterexample:
  "map_option (\<lambda>w. (handles w 0, objs (heap_of w) 1, trace (heap_of w)))
      (run [Construct 0 1 False, Destroy 0] fresh_world)
     = Some (None, Some \<lparr>counter = 4294967295\<rparr>, [Release 1 4294967295])
   \<and> increments 1 [Release 1 4294967295] = 0
   \<and> decrements 1 [Release 1 4294967295] = 1
   \<and> deletions 1 [Release 1 4294967295] = 0"
  by (simp add: fresh_world_def ctor_raw_def dtor_def intrusive_ptr_release_def
      ref_counter_default_def increments_def decrements_def deletions_def Let_def)

text \<open>
  C1, amended. Start in a world with finitely many handles whose counters are the
  numbers of owning references
  (live handles that store the address, plus references the client holds through raw
  pointers), with a pointee that was just constructed: count 0, no hook called yet. Run
  any finite sequence of operations (construction with or without the initial
  increment, default, copy and move construction, destruction, every assignment, every
  \<^verbatim>\<open>reset\<close>, \<^verbatim>\<open>detach\<close>, \<^verbatim>\<open>swap\<close>, and hook calls of the client itself) in which every
  operation meets its documented preconditions: a raw pointer given to a handle is null
  or points to a live pointee, \<^verbatim>\<open>add_ref = false\<close> hands over a reference the client
  holds, the client releases only references it holds, and a copy, an assignment or
  \<^verbatim>\<open>reset\<close> that shares a pointee, and an increment by the client find the count of
  that pointee below 2^32 - 1. Then every operation of the sequence returns (no undefined
  behaviour), and for the last operation of every such sequence: the counters are again
  the numbers of owning references; the pointee is deleted by that operation exactly if
  its owning references go from at least one to none by it; a pointee that was deleted
  does not come back; the trace holds one deletion of the pointee if it is gone and
  none if it is alive; and whenever the pointee has no owning reference, the increments
  performed for it equal the decrements.
\<close>

theorem refcount_lifecycle:
  assumes inv: "world_inv w" and new: "pristine w p" and disc: "disciplined (acts @ [a]) w"
  shows "\<exists>w1 w2. run acts w = Some w1 \<and> step a w1 = Some w2 \<and> run (acts @ [a]) w = Some w2
           \<and> world_inv w2
           \<and> ((alive w1 p \<and> \<not> alive w2 p) = (0 < owners w1 p \<and> owners w2 p = 0))
           \<and> (alive w2 p \<longrightarrow> alive w1 p)
           \<and> deletions p (trace (heap_of w2)) = (if alive w2 p then 0 else 1)
           \<and> (owners w2 p = 0 \<longrightarrow>
                 increments p (trace (heap_of w2)) = decrements p (trace (heap_of w2)))"
proof -
  have p: "p \<noteq> nullptr" using new by (simp add: pristine_def)
  have led: "ledger (heap_of w) p" using new by (rule pristine_ledger)
  have d1: "disciplined acts w" using disc by (simp add: disciplined_append)
  from run_sound [OF inv led p d1] obtain w1 where
    w1: "run acts w = Some w1" "world_inv w1" "ledger (heap_of w1) p"
    by blast
  have ob: "obeys a w1" using disc w1(1) by (simp add: disciplined_append)
  from step_sound [OF w1(2) w1(3) p ob] obtain w2 where
    w2: "step a w1 = Some w2" "world_inv w2" "ledger (heap_of w2) p"
      "(alive w1 p \<and> \<not> alive w2 p) = (0 < owners w1 p \<and> owners w2 p = 0)"
      "alive w2 p \<longrightarrow> alive w1 p"
    by (auto simp: sound_step_def)
  have whole: "run (acts @ [a]) w = Some w2"
    using w1(1) w2(1) by (simp add: run_append)
  have del: "deletions p (trace (heap_of w2)) = (if alive w2 p then 0 else 1)"
    using w2(3) by (simp add: ledger_def alive_def)
  have bal: "increments p (trace (heap_of w2)) = decrements p (trace (heap_of w2))"
    if "owners w2 p = 0"
  proof (cases "objs (heap_of w2) p")
    case None
    then show ?thesis using w2(3) by (simp add: ledger_def)
  next
    case (Some c)
    then have "unat (counter c) = 0"
      using counted_live [of "heap_of w2" "owners w2" p c] w2(2) p that
      by (simp add: world_inv_def)
    then show ?thesis using w2(3) Some by (simp add: ledger_def)
  qed
  show ?thesis
  proof (intro exI conjI impI)
    show "run acts w = Some w1" by (rule w1(1))
    show "step a w1 = Some w2" by (rule w2(1))
    show "run (acts @ [a]) w = Some w2" by (rule whole)
    show "world_inv w2" by (rule w2(2))
    show "(alive w1 p \<and> \<not> alive w2 p) = (0 < owners w1 p \<and> owners w2 p = 0)"
      by (rule w2(4))
    show "alive w1 p" if "alive w2 p" using w2(5) that by simp
    show "deletions p (trace (heap_of w2)) = (if alive w2 p then 0 else 1)" by (rule del)
    show "increments p (trace (heap_of w2)) = decrements p (trace (heap_of w2))"
      if "owners w2 p = 0" using that by (rule bal)
  qed
qed

theorem refcount_lifecycle_witness:
  "world_inv fresh_world \<and> pristine fresh_world 1
   \<and> disciplined
        ([Construct 0 1 True, CopyConstruct 1 0, Destroy 0, MoveConstruct 2 1] @ [Destroy 2])
        fresh_world
   \<and> (\<exists>w1 w2.
         run [Construct 0 1 True, CopyConstruct 1 0, Destroy 0, MoveConstruct 2 1] fresh_world
           = Some w1
         \<and> step (Destroy 2) w1 = Some w2
         \<and> world_inv w2
         \<and> alive w1 1 \<and> \<not> alive w2 1 \<and> owners w1 1 = 1 \<and> owners w2 1 = 0
         \<and> deletions 1 (trace (heap_of w2)) = 1
         \<and> increments 1 (trace (heap_of w2)) = 2
         \<and> decrements 1 (trace (heap_of w2)) = 2)"
proof -
  let ?acts = "[Construct 0 1 True, CopyConstruct 1 0, Destroy 0, MoveConstruct 2 1]"
  from refcount_lifecycle [OF fresh_world_inv fresh_world_pristine scenario_disciplined]
  obtain w1 w2 where
    all: "run ?acts fresh_world = Some w1 \<and> step (Destroy 2) w1 = Some w2
      \<and> run (?acts @ [Destroy 2]) fresh_world = Some w2
      \<and> world_inv w2
      \<and> ((alive w1 1 \<and> \<not> alive w2 1) = (0 < owners w1 1 \<and> owners w2 1 = 0))
      \<and> (alive w2 1 \<longrightarrow> alive w1 1)
      \<and> deletions 1 (trace (heap_of w2)) = (if alive w2 1 then 0 else 1)
      \<and> (owners w2 1 = 0 \<longrightarrow>
            increments 1 (trace (heap_of w2)) = decrements 1 (trace (heap_of w2)))"
    by (elim exE) (rule that)
  have r1: "run ?acts fresh_world = Some w1" using all by (elim conjE)
  have r2: "step (Destroy 2) w1 = Some w2" using all by (elim conjE)
  have r3: "world_inv w2" using all by (elim conjE)
  have r4: "(alive w1 1 \<and> \<not> alive w2 1) = (0 < owners w1 1 \<and> owners w2 1 = 0)"
    using all by (elim conjE)
  have r5: "deletions 1 (trace (heap_of w2)) = (if alive w2 1 then 0 else 1)"
    using all by (elim conjE)
  have r6: "owners w2 1 = 0 \<longrightarrow>
         increments 1 (trace (heap_of w2)) = decrements 1 (trace (heap_of w2))"
    using all by (elim conjE)
  note r = r1 r2 r3 r4 r5 r6
  have run1: "map_option (\<lambda>w. (objs (heap_of w) 1, trace (heap_of w))) (run ?acts fresh_world)
      = Some (Some \<lparr>counter = 1\<rparr>, [AddRef 1 1, AddRef 1 2, Release 1 1])"
    by (simp add: fresh_world_def ctor_raw_def ctor_copy_def dtor_def handle_simps
        intrusive_ptr_add_ref_def intrusive_ptr_release_def hand_over_def
        ref_counter_default_def)
  have h1: "objs (heap_of w1) 1 = Some \<lparr>counter = 1\<rparr>"
    "trace (heap_of w1) = [AddRef 1 1, AddRef 1 2, Release 1 1]"
    using run1 unfolding r1 by simp_all
  have d1: "disciplined ?acts fresh_world"
    using scenario_disciplined [unfolded disciplined_append] by (rule conjunct1)
  have one: "(1 :: ptr) \<noteq> nullptr" by simp
  from run_sound [OF fresh_world_inv pristine_ledger [OF fresh_world_pristine] one d1]
  obtain w' where w': "run ?acts fresh_world = Some w'" "world_inv w'"
    by (elim exE conjE) (rule that)
  have inv1: "world_inv w1"
    using w' r1 by (metis option.inject)
  have o1: "owners w1 1 = 1"
    using counted_live [of "heap_of w1" "owners w1" 1 "\<lparr>counter = 1\<rparr>"] inv1 h1(1)
    by (simp add: world_inv_def)
  have a1: "alive w1 1" using h1(1) by (simp add: alive_def)
  have h2: "map_option (\<lambda>w. (objs (heap_of w) 1, trace (heap_of w)))
      (run (?acts @ [Destroy 2]) fresh_world)
      = Some (None, [AddRef 1 1, AddRef 1 2, Release 1 1, Release 1 0, Delete 1])"
    by (simp add: fresh_world_def ctor_raw_def ctor_copy_def dtor_def handle_simps
        intrusive_ptr_add_ref_def intrusive_ptr_release_def hand_over_def
        ref_counter_default_def)
  have r7: "run (?acts @ [Destroy 2]) fresh_world = Some w2" using all by (elim conjE)
  have t2: "objs (heap_of w2) 1 = None"
    "trace (heap_of w2) = [AddRef 1 1, AddRef 1 2, Release 1 1, Release 1 0, Delete 1]"
    using h2 unfolding r7 by simp_all
  have a2: "\<not> alive w2 1" using t2(1) by (simp add: alive_def)
  have o2: "owners w2 1 = 0" using r(4) a1 a2 by simp
  have d2: "deletions 1 (trace (heap_of w2)) = 1" using r(5) a2 by simp
  have i2: "increments 1 (trace (heap_of w2)) = 2"
    using t2(2) by (simp add: increments_def)
  have e2: "decrements 1 (trace (heap_of w2)) = 2"
    using r(6) o2 i2 by simp
  show ?thesis
  proof (intro conjI exI)
    show "world_inv fresh_world" by (rule fresh_world_inv)
    show "pristine fresh_world 1" by (rule fresh_world_pristine)
    show "disciplined (?acts @ [Destroy 2]) fresh_world" by (rule scenario_disciplined)
    show "run ?acts fresh_world = Some w1" by (rule r1)
    show "step (Destroy 2) w1 = Some w2" by (rule r2)
    show "world_inv w2" by (rule r3)
    show "alive w1 1" by (rule a1)
    show "\<not> alive w2 1" by (rule a2)
    show "owners w1 1 = 1" by (rule o1)
    show "owners w2 1 = 0" by (rule o2)
    show "deletions 1 (trace (heap_of w2)) = 1" by (rule d2)
    show "increments 1 (trace (heap_of w2)) = 2" by (rule i2)
    show "decrements 1 (trace (heap_of w2)) = 2" by (rule e2)
  qed
qed

end
